theory Spec2Isabelle
  imports Main "HOL-Library.Word"
begin

section \<open>Data model (models package, crypto/x509 values)\<close>

text \<open>
  Go strings are byte sequences; a \<open>string\<close> here is the list of those bytes.
  Instants (\<open>time.Time\<close>) and durations (\<open>time.Duration\<close>) are integers counting
  nanoseconds, as \<open>time.Duration\<close> does.
\<close>

type_synonym byte = "8 word"

definition Second :: int where
  "Second = 1000000000"

definition Minute :: int where
  "Minute = 60 * Second"

definition Hour :: int where
  "Hour = 60 * Minute"

text \<open>
  \<open>models.RevokedCertificate\<close>. The Go struct also has \<open>ID\<close>, \<open>CreatedAt\<close> and
  \<open>UpdatedAt\<close>; the service never assigns them and no statement writes them from the
  struct, so they are not fields of the model. The \<open>updated_at\<close> column is part of the
  table row below.
\<close>

record RevokedCertificate =
  Serial :: string
  RevocationDate :: int
  Reason :: int
  ReasonText :: string
  CertificateAuthority :: string

text \<open>\<open>models.CertificateStatus\<close>; a nil pointer is \<open>None\<close>.\<close>

record CertificateStatus =
  st_Serial :: string
  IsRevoked :: bool
  st_RevocationDate :: "int option"
  st_Reason :: "string option"
  st_CertificateAuthority :: "string option"

record CRLInfo =
  URL :: string
  Issuer :: string
  NextUpdate :: int
  LastProcessed :: int
  CertCount :: nat

text \<open>
  \<open>models.RevocationReasons\<close>, a Go map from reason code to text. The two texts with an
  accented letter carry its UTF-8 bytes.
\<close>

definition RevocationReasons :: "int \<rightharpoonup> string" where
  "RevocationReasons =
     [0 \<mapsto> ''No especificado'',
      1 \<mapsto> ''Compromiso de clave'',
      2 \<mapsto> ''Compromiso de CA'',
      3 \<mapsto> ''Cambio de afiliaci'' @ [CHR 0xC3, CHR 0xB3] @ ''n'',
      4 \<mapsto> ''Reemplazado'',
      5 \<mapsto> ''Cese de operaciones'',
      6 \<mapsto> ''Retenci'' @ [CHR 0xC3, CHR 0xB3] @ ''n de certificado'',
      8 \<mapsto> ''Eliminado de CRL'',
      9 \<mapsto> ''Privilegio retirado'',
      10 \<mapsto> ''Compromiso de AA'']"

text \<open>Indexing a Go map at a missing key yields the zero value, the empty string.\<close>

definition reasons_index :: "int \<Rightarrow> string" where
  "reasons_index r = (case RevocationReasons r of None \<Rightarrow> [] | Some t \<Rightarrow> t)"

text \<open>
  What \<open>x509.ParseCRL\<close> returns, restricted to the fields the service reads.
  \<open>pkix.Extension\<close>, \<open>pkix.RevokedCertificate\<close> (named \<open>RevokedEntry\<close> here),
  \<open>pkix.Name\<close> as filled by \<open>FillFromRDNSequence\<close> (with the result of its
  \<open>String()\<close> method as a field), and the list itself.
\<close>

record Extension =
  ext_Id :: "int list"
  ext_Critical :: bool
  ext_Value :: "byte list"

record RevokedEntry =
  SerialNumber :: int
  RevocationTime :: int
  Extensions :: "Extension list"

record Name =
  CommonName :: string
  Organization :: "string list"
  OrganizationalUnit :: "string list"
  Name_String :: string

record CertificateList =
  tbs_Issuer :: Name
  tbs_NextUpdate :: int
  tbs_RevokedCertificates :: "RevokedEntry list"

datatype error =
    ErrLoadURLs
  | ErrDownload
  | ErrParse
  | ErrTxBegin
  | ErrTxPrepare
  | ErrTxExec string
  | ErrTxCommit
  | ErrDbExec
  | ErrDbQuery
  | ErrRedis
  | ErrUnmarshal

section \<open>Serial numbers\<close>

text \<open>
  \<open>formatSerial\<close> is \<open>(*big.Int).String()\<close>: the decimal digits, most significant
  first, with a leading minus sign for a negative number.
\<close>

definition digit_char :: "nat \<Rightarrow> char" where
  "digit_char d = ''0123456789'' ! d"

function decimal :: "nat \<Rightarrow> string" where
  "decimal n = (if n < 10 then [digit_char n] else decimal (n div 10) @ [digit_char (n mod 10)])"
  by pat_completeness auto
termination
  by (relation "measure id") auto

declare decimal.simps [simp del]

definition formatSerial :: "int \<Rightarrow> string" where
  "formatSerial serial =
     (if serial < 0 then CHR ''-'' # decimal (nat (- serial)) else decimal (nat serial))"

text \<open>
  \<open>normalizeSerial\<close>: the body is \<open>return serial\<close>. Its comment in the source reads
  "converts hexadecimal serial numbers to decimal; if the input is already decimal, it
  returns as-is".
\<close>

definition normalizeSerial :: "string \<Rightarrow> string" where
  "normalizeSerial serial = serial"

section \<open>Reason extraction (the inner loop of ProcessSingleCRL)\<close>

text \<open>
  The loop over \<open>revokedCert.Extensions\<close>. The pair is the outer \<open>reason\<close> and
  \<open>reasonText\<close>. Inside the \<open>if\<close>, \<open>reasonText, exists := models.RevocationReasons[reason]\<close>
  declares a new variable that shadows the outer one, and \<open>reasonText = reasonText\<close>
  assigns that inner variable to itself: the outer \<open>reasonText\<close> keeps its value on both
  branches.
\<close>

fun reasonLoop :: "Extension list \<Rightarrow> int \<times> string \<Rightarrow> int \<times> string" where
  "reasonLoop [] (reason, reasonText) = (reason, reasonText)"
| "reasonLoop (ext # exts) (reason, reasonText) =
     (if ext_Id ext = [2, 5, 29, 21] then
        (if length (ext_Value ext) > 0 then
           (let reason' = uint (hd (ext_Value ext)) in
            (case RevocationReasons reason' of
               Some inner \<Rightarrow> reasonLoop exts (reason', reasonText)
             | None \<Rightarrow> reasonLoop exts (reason', reasonText)))
         else reasonLoop exts (reason, reasonText))
      else reasonLoop exts (reason, reasonText))"

definition extractReason :: "Extension list \<Rightarrow> int \<times> string" where
  "extractReason exts = reasonLoop exts (0, [])"

definition extractIssuerName :: "Name \<Rightarrow> string" where
  "extractIssuerName issuer =
     (if CommonName issuer \<noteq> [] then CommonName issuer
      else if length (Organization issuer) > 0 then hd (Organization issuer)
      else if length (OrganizationalUnit issuer) > 0 then hd (OrganizationalUnit issuer)
      else Name_String issuer)"

text \<open>The struct literal built for one entry of the list (lines 153 to 175).\<close>

definition mkRevokedCertificate :: "string \<Rightarrow> RevokedEntry \<Rightarrow> RevokedCertificate" where
  "mkRevokedCertificate issuerNameStr revokedCert =
     (let serial = formatSerial (SerialNumber revokedCert);
          (reason, reasonText) = extractReason (Extensions revokedCert)
      in \<lparr>Serial = serial,
          RevocationDate = RevocationTime revokedCert,
          Reason = reason,
          ReasonText = reasonText,
          CertificateAuthority = issuerNameStr\<rparr>)"

section \<open>The durable store and the cache\<close>

text \<open>
  A row of \<open>revoked_certificates\<close>: the five columns every insert statement writes from
  the struct, and \<open>updated_at\<close>. The table is keyed by \<open>serial\<close> (declared
  \<open>UNIQUE\<close>). The columns \<open>id\<close> and \<open>created_at\<close> are assigned by the database and
  never written or read by the service.
\<close>

record cert_row =
  row_cert :: RevokedCertificate
  row_updated_at :: int

text \<open>
  A Redis entry: the value, the expiry passed to \<open>SET\<close> and the instant of the
  \<open>SET\<close>. A value is a plain string or the JSON document of a
  \<open>CertificateStatus\<close>; \<open>json.Marshal\<close> followed by \<open>json.Unmarshal\<close> gives the
  struct back, so the document is kept as the struct.
\<close>

datatype redis_val = RStr string | RStatus CertificateStatus

record redis_entry =
  rval :: redis_val
  rttl :: int
  rset_at :: int

text \<open>
  Everything the service reads and writes: the two tables, whether \<open>s.redis\<close> is non-nil
  and then the Redis keys and the \<open>stats:\<close> counters (kept apart from the other keys,
  whose prefixes \<open>cert:\<close> and \<open>crl_processing:\<close> never collide with them), the value
  \<open>time.Now()\<close> returns, and how many database and Redis commands were issued so far.
  \<open>batch_log\<close> records the argument of every call of the batch writer and
  \<open>download_log\<close> the locator of every call of \<open>downloadCRL\<close>, in order; no
  function reads them.
\<close>

record world =
  db :: "string \<rightharpoonup> cert_row"
  crl_info :: "string \<rightharpoonup> CRLInfo"
  redis_configured :: bool
  kv :: "string \<rightharpoonup> redis_entry"
  stats :: "string \<Rightarrow> nat"
  clock :: int
  db_calls :: nat
  redis_calls :: nat
  batch_log :: "RevokedCertificate list list"
  download_log :: "string list"

text \<open>
  How one transaction of the batch writer ends: a failure of \<open>Begin\<close>, of \<open>Prepare\<close>,
  of the \<open>Exec\<close> for the certificate at a given position, of \<open>Commit\<close>, or none.
\<close>

datatype tx_outcome = TxBeginFails | TxPrepareFails | TxExecFails nat | TxCommitFails | TxOk

text \<open>
  The outside world, which the service does not control: the result of
  \<open>downloadCRL\<close> for a locator, of \<open>x509.ParseCRL\<close> for the bytes, of reading the
  registry file, and which commands fail. A transaction's outcome may depend on when it is
  issued (the number of earlier database commands) and on the batch; a single statement
  or a Redis command fails according to when it is issued.
\<close>

record env =
  load_file :: "string \<Rightarrow> error + string list"
  http_download :: "string \<Rightarrow> error + byte list"
  x509_ParseCRL :: "byte list \<Rightarrow> error + CertificateList"
  tx_outcome_of :: "nat \<Rightarrow> RevokedCertificate list \<Rightarrow> tx_outcome"
  db_stmt_fails :: "nat \<Rightarrow> bool"
  redis_fails :: "nat \<Rightarrow> bool"

subsection \<open>database package\<close>

text \<open>\<open>INSERT ... ON CONFLICT (serial) DO UPDATE SET\<close> every written column.\<close>

definition upsert :: "int \<Rightarrow> RevokedCertificate \<Rightarrow> (string \<rightharpoonup> cert_row) \<Rightarrow> (string \<rightharpoonup> cert_row)" where
  "upsert now cert tbl = tbl(Serial cert \<mapsto> \<lparr>row_cert = cert, row_updated_at = now\<rparr>)"

text \<open>
  The loop of \<open>stmt.Exec\<close> calls inside the transaction, on the transaction's own view of
  the table. The first failing \<open>Exec\<close> returns the error.
\<close>

fun txExec :: "tx_outcome \<Rightarrow> int \<Rightarrow> RevokedCertificate list \<Rightarrow> nat \<Rightarrow> (string \<rightharpoonup> cert_row)
    \<Rightarrow> error + (string \<rightharpoonup> cert_row)" where
  "txExec oc now [] i tx = Inr tx"
| "txExec oc now (cert # certs) i tx =
     (if oc = TxExecFails i then Inl (ErrTxExec (Serial cert))
      else txExec oc now certs (Suc i) (upsert now cert tx))"

text \<open>
  \<open>BatchInsertRevokedCertificates\<close>. Every error return runs the deferred
  \<open>tx.Rollback()\<close>, which discards the transaction's view; only a successful
  \<open>tx.Commit()\<close> installs it.
\<close>

definition BatchInsertRevokedCertificates :: "env \<Rightarrow> RevokedCertificate list \<Rightarrow> world \<Rightarrow> error option \<times> world" where
  "BatchInsertRevokedCertificates e certs w0 =
     (let w = w0\<lparr>batch_log := batch_log w0 @ [certs]\<rparr>
      in if length certs = 0 then (None, w)
      else
        (let oc = tx_outcome_of e (db_calls w) certs;
             w1 = w\<lparr>db_calls := Suc (db_calls w)\<rparr>
         in if oc = TxBeginFails then (Some ErrTxBegin, w1)
            else if oc = TxPrepareFails then (Some ErrTxPrepare, w1)
            else
              (case txExec oc (clock w) certs 0 (db w) of
                 Inl err \<Rightarrow> (Some err, w1)
               | Inr tx \<Rightarrow>
                   if oc = TxCommitFails then (Some ErrTxCommit, w1)
                   else (None, w1\<lparr>db := tx\<rparr>))))"

text \<open>\<open>(*DB).GetCertificateStatus\<close>: \<open>sql.ErrNoRows\<close> is the not-revoked answer.\<close>

definition db_GetCertificateStatus :: "env \<Rightarrow> string \<Rightarrow> world \<Rightarrow> (error + CertificateStatus) \<times> world" where
  "db_GetCertificateStatus e serial w =
     (let w1 = w\<lparr>db_calls := Suc (db_calls w)\<rparr>
      in if db_stmt_fails e (db_calls w) then (Inl ErrDbQuery, w1)
         else
           (case db w serial of
              None \<Rightarrow>
                (Inr \<lparr>st_Serial = serial, IsRevoked = False, st_RevocationDate = None,
                      st_Reason = None, st_CertificateAuthority = None\<rparr>, w1)
            | Some row \<Rightarrow>
                (let cert = row_cert row;
                     reasonText = (if ReasonText cert \<noteq> [] then ReasonText cert
                                   else reasons_index (Reason cert))
                 in (Inr \<lparr>st_Serial = serial, IsRevoked = True,
                          st_RevocationDate = Some (RevocationDate cert),
                          st_Reason = Some reasonText,
                          st_CertificateAuthority = Some (CertificateAuthority cert)\<rparr>, w1))))"

definition InsertCRLInfo :: "env \<Rightarrow> CRLInfo \<Rightarrow> world \<Rightarrow> error option \<times> world" where
  "InsertCRLInfo e crlInfo w =
     (let w1 = w\<lparr>db_calls := Suc (db_calls w)\<rparr>
      in if db_stmt_fails e (db_calls w) then (Some ErrDbExec, w1)
         else (None, w1\<lparr>crl_info := (crl_info w)(URL crlInfo \<mapsto> crlInfo)\<rparr>))"

subsection \<open>cache package\<close>

text \<open>
  \<open>client.Set(ctx, key, value, ttl)\<close> and \<open>client.Get(ctx, key)\<close>. A key whose expiry
  has passed reads as absent (\<open>redis.Nil\<close>, here \<open>Inr None\<close>). Every expiry the
  service passes is positive, so the case of an entry without expiry does not arise.
\<close>

definition client_Set :: "env \<Rightarrow> string \<Rightarrow> redis_val \<Rightarrow> int \<Rightarrow> world \<Rightarrow> error option \<times> world" where
  "client_Set e key v ttl w =
     (let w1 = w\<lparr>redis_calls := Suc (redis_calls w)\<rparr>
      in if redis_fails e (redis_calls w) then (Some ErrRedis, w1)
         else (None, w1\<lparr>kv := (kv w)(key \<mapsto> \<lparr>rval = v, rttl = ttl, rset_at = clock w\<rparr>)\<rparr>))"

definition client_Get :: "env \<Rightarrow> string \<Rightarrow> world \<Rightarrow> (error + redis_val option) \<times> world" where
  "client_Get e key w =
     (let w1 = w\<lparr>redis_calls := Suc (redis_calls w)\<rparr>
      in if redis_fails e (redis_calls w) then (Inl ErrRedis, w1)
         else
           (case kv w key of
              None \<Rightarrow> (Inr None, w1)
            | Some en \<Rightarrow>
                if clock w < rset_at en + rttl en then (Inr (Some (rval en)), w1)
                else (Inr None, w1)))"

definition SetCertificateStatus :: "env \<Rightarrow> string \<Rightarrow> CertificateStatus \<Rightarrow> int \<Rightarrow> world \<Rightarrow> error option \<times> world" where
  "SetCertificateStatus e serial status ttl w = client_Set e (''cert:'' @ serial) (RStatus status) ttl w"

definition redis_GetCertificateStatus :: "env \<Rightarrow> string \<Rightarrow> world \<Rightarrow> (error + CertificateStatus option) \<times> world" where
  "redis_GetCertificateStatus e serial w =
     (case client_Get e (''cert:'' @ serial) w of
        (Inl err, w1) \<Rightarrow> (Inl err, w1)
      | (Inr None, w1) \<Rightarrow> (Inr None, w1)
      | (Inr (Some (RStatus status)), w1) \<Rightarrow> (Inr (Some status), w1)
      | (Inr (Some (RStr s)), w1) \<Rightarrow> (Inl ErrUnmarshal, w1))"

definition SetCRLProcessing :: "env \<Rightarrow> string \<Rightarrow> bool \<Rightarrow> world \<Rightarrow> error option \<times> world" where
  "SetCRLProcessing e url processing w =
     (let key = ''crl_processing:'' @ url;
          val = (if processing then ''true'' else ''false'');
          ttl = (if processing then 30 * Minute else 1 * Second)
      in client_Set e key (RStr val) ttl w)"

definition IsCRLProcessing :: "env \<Rightarrow> string \<Rightarrow> world \<Rightarrow> (error + bool) \<times> world" where
  "IsCRLProcessing e url w =
     (case client_Get e (''crl_processing:'' @ url) w of
        (Inl err, w1) \<Rightarrow> (Inl err, w1)
      | (Inr None, w1) \<Rightarrow> (Inr False, w1)
      | (Inr (Some val), w1) \<Rightarrow> (Inr (val = RStr ''true''), w1))"

text \<open>\<open>IncrementStats\<close>; every caller discards the error it returns.\<close>

definition IncrementStats :: "env \<Rightarrow> string \<Rightarrow> world \<Rightarrow> world" where
  "IncrementStats e key w =
     (let w1 = w\<lparr>redis_calls := Suc (redis_calls w)\<rparr>
      in if redis_fails e (redis_calls w) then w1
         else w1\<lparr>stats := (stats w)(key := Suc (stats w key))\<rparr>)"

section \<open>services package: ingestion\<close>

text \<open>The status cached for one certificate of a batch (lines 191 to 197).\<close>

definition revokedStatus :: "string \<Rightarrow> RevokedCertificate \<Rightarrow> CertificateStatus" where
  "revokedStatus issuerNameStr cert =
     \<lparr>st_Serial = Serial cert, IsRevoked = True,
      st_RevocationDate = Some (RevocationDate cert),
      st_Reason = Some (ReasonText cert),
      st_CertificateAuthority = Some issuerNameStr\<rparr>"

text \<open>The loop \<open>for _, cert := range certificates\<close>; a failing write is only logged.\<close>

fun cacheCertificates :: "env \<Rightarrow> string \<Rightarrow> RevokedCertificate list \<Rightarrow> world \<Rightarrow> world" where
  "cacheCertificates e issuerNameStr [] w = w"
| "cacheCertificates e issuerNameStr (cert # certs) w =
     cacheCertificates e issuerNameStr certs
       (snd (SetCertificateStatus e (Serial cert) (revokedStatus issuerNameStr cert) (24 * Hour) w))"

text \<open>
  One flush (lines 181 to 203, and again 211 to 233): the batch insert, the
  \<open>processed\<close> counter, then the cache writes, which are outside the \<open>if err != nil\<close>.
\<close>

definition flushBatch :: "env \<Rightarrow> string \<Rightarrow> RevokedCertificate list \<Rightarrow> world \<times> nat \<Rightarrow> world \<times> nat" where
  "flushBatch e issuerNameStr certificates st =
     (case st of (w, processed) \<Rightarrow>
        (case BatchInsertRevokedCertificates e certificates w of (err, w1) \<Rightarrow>
           (let processed' = (if err \<noteq> None then processed else processed + length certificates);
                w2 = (if redis_configured w1 then cacheCertificates e issuerNameStr certificates w1
                      else w1)
            in (w2, processed'))))"

definition batchSize :: nat where
  "batchSize = 500"

text \<open>
  The loop over \<open>crl.TBSCertList.RevokedCertificates\<close>, with the slice
  \<open>certificates\<close> as accumulator; it returns the slice left over and the state.
\<close>

fun ingestLoop :: "env \<Rightarrow> string \<Rightarrow> RevokedEntry list \<Rightarrow> RevokedCertificate list \<Rightarrow> world \<times> nat
    \<Rightarrow> RevokedCertificate list \<times> (world \<times> nat)" where
  "ingestLoop e issuerNameStr [] certificates st = (certificates, st)"
| "ingestLoop e issuerNameStr (revokedCert # rest) certificates st =
     (let certificates' = certificates @ [mkRevokedCertificate issuerNameStr revokedCert]
      in if length certificates' \<ge> batchSize
         then ingestLoop e issuerNameStr rest [] (flushBatch e issuerNameStr certificates' st)
         else ingestLoop e issuerNameStr rest certificates' st)"

text \<open>
  \<open>ProcessSingleCRL\<close> from \<open>log.Printf("Processing CRL: ...")\<close> on: download, parse,
  the source descriptor, the loop and the flush of the remaining certificates. The second
  component of the state it returns is \<open>processed\<close>.
\<close>

definition ingestBody :: "env \<Rightarrow> string \<Rightarrow> world \<Rightarrow> error option \<times> (world \<times> nat)" where
  "ingestBody e crlURL w0 =
     (let w = w0\<lparr>download_log := download_log w0 @ [crlURL]\<rparr>
      in case http_download e crlURL of
        Inl err \<Rightarrow> (Some ErrDownload, (w, 0))
      | Inr crlData \<Rightarrow>
          (case x509_ParseCRL e crlData of
             Inl err \<Rightarrow> (Some ErrParse, (w, 0))
           | Inr crl \<Rightarrow>
               (let issuerNameStr = extractIssuerName (tbs_Issuer crl);
                    crlInfo = \<lparr>URL = crlURL, Issuer = issuerNameStr,
                               NextUpdate = tbs_NextUpdate crl,
                               LastProcessed = clock w,
                               CertCount = length (tbs_RevokedCertificates crl)\<rparr>;
                    w1 = snd (InsertCRLInfo e crlInfo w)
                in (case ingestLoop e issuerNameStr (tbs_RevokedCertificates crl) [] (w1, 0) of
                      (certificates, st) \<Rightarrow>
                        (None, if length certificates > 0
                               then flushBatch e issuerNameStr certificates st else st)))))"

text \<open>
  The lease prologue of \<open>ProcessSingleCRL\<close> (lines 102 to 116): either the call returns
  \<open>nil\<close> at once, or it goes on from the state the prologue leaves.
\<close>

datatype prologue = is_Skipped: Skipped (prologue_world: world) | is_Entered: Entered (prologue_world: world)

definition leasePrologue :: "env \<Rightarrow> string \<Rightarrow> world \<Rightarrow> prologue" where
  "leasePrologue e crlURL w =
     (if redis_configured w then
        (case IsCRLProcessing e crlURL w of
           (Inl err, w1) \<Rightarrow> Entered (snd (SetCRLProcessing e crlURL True w1))
         | (Inr processing, w1) \<Rightarrow>
             if processing then Skipped w1
             else Entered (snd (SetCRLProcessing e crlURL True w1)))
      else Entered w)"

text \<open>The deferred \<open>s.redis.SetCRLProcessing(crlURL, false)\<close>, registered only when \<open>s.redis\<close> is non-nil.\<close>

definition leaseEpilogue :: "env \<Rightarrow> string \<Rightarrow> world \<Rightarrow> world" where
  "leaseEpilogue e crlURL w =
     (if redis_configured w then snd (SetCRLProcessing e crlURL False w) else w)"

definition ProcessSingleCRL :: "env \<Rightarrow> string \<Rightarrow> world \<Rightarrow> error option \<times> world" where
  "ProcessSingleCRL e crlURL w =
     (case leasePrologue e crlURL w of
        Skipped w1 \<Rightarrow> (None, w1)
      | Entered w1 \<Rightarrow>
          (case ingestBody e crlURL w1 of (err, (w2, processed)) \<Rightarrow>
             (err, leaseEpilogue e crlURL w2)))"

text \<open>
  \<open>ProcessAllCRLs\<close>. Each goroutine calls \<open>ProcessSingleCRL\<close> and only logs its error.
  The goroutines are run here one after the other, in the order of the list; the bound of
  five goroutines at a time is not represented.
\<close>

definition ProcessAllCRLs :: "env \<Rightarrow> string \<Rightarrow> world \<Rightarrow> error option \<times> world" where
  "ProcessAllCRLs e crlURLsFile w =
     (case load_file e crlURLsFile of
        Inl err \<Rightarrow> (Some ErrLoadURLs, w)
      | Inr urls \<Rightarrow>
          (let w1 = foldl (\<lambda>w' url. snd (ProcessSingleCRL e url w')) w urls
           in (None, if redis_configured w1 then IncrementStats e ''stats:crls_processed'' w1
                     else w1)))"

section \<open>services package: query\<close>

definition CheckCertificateStatus :: "env \<Rightarrow> string \<Rightarrow> world \<Rightarrow> (error + CertificateStatus) \<times> world" where
  "CheckCertificateStatus e serial0 w =
     (let serial = normalizeSerial serial0;
          (hit, w1) =
            (if redis_configured w then
               (case redis_GetCertificateStatus e serial w of
                  (Inr (Some status), wa) \<Rightarrow> (Some status, IncrementStats e ''stats:cache_hits'' wa)
                | (Inr None, wa) \<Rightarrow> (None, IncrementStats e ''stats:cache_misses'' wa)
                | (Inl err, wa) \<Rightarrow> (None, IncrementStats e ''stats:cache_misses'' wa))
             else (None, w))
      in (case hit of
            Some status \<Rightarrow> (Inr status, w1)
          | None \<Rightarrow>
              (case db_GetCertificateStatus e serial w1 of
                 (Inl err, w2) \<Rightarrow> (Inl err, w2)
               | (Inr status, w2) \<Rightarrow>
                   if redis_configured w2 then
                     (let ttl = (if IsRevoked status then 7 * 24 * Hour else 24 * Hour)
                      in (Inr status, snd (SetCertificateStatus e serial status ttl w2)))
                   else (Inr status, w2))))"

section \<open>Two calls of ProcessSingleCRL on one source, interleaved\<close>

text \<open>
  Where a call of \<open>ProcessSingleCRL\<close> stands: before the lease check, between the check
  and \<open>SetCRLProcessing(crlURL, true)\<close>, in flight (about to download, parse and persist),
  before the deferred release, or returned.
\<close>

datatype pc = AtCheck | AtAcquire | InFlight | AtRelease "error option" | Returned "error option"

text \<open>
  One step of one call. The two Redis commands of the prologue are separate steps, as they
  are separate round trips in the source; the body and the release are one step each.
\<close>

definition call_step :: "env \<Rightarrow> string \<Rightarrow> pc \<Rightarrow> world \<Rightarrow> pc \<times> world" where
  "call_step e crlURL p w =
     (case p of
        AtCheck \<Rightarrow>
          if redis_configured w then
            (case IsCRLProcessing e crlURL w of
               (Inl err, w1) \<Rightarrow> (AtAcquire, w1)
             | (Inr processing, w1) \<Rightarrow>
                 if processing then (Returned None, w1) else (AtAcquire, w1))
          else (InFlight, w)
      | AtAcquire \<Rightarrow> (InFlight, snd (SetCRLProcessing e crlURL True w))
      | InFlight \<Rightarrow>
          (case ingestBody e crlURL w of (err, (w2, processed)) \<Rightarrow> (AtRelease err, w2))
      | AtRelease err \<Rightarrow> (Returned err, leaseEpilogue e crlURL w)
      | Returned err \<Rightarrow> (Returned err, w))"

text \<open>
  Two calls on the same locator sharing the store and the cache. A schedule says, step by
  step, which call moves: \<open>True\<close> the first, \<open>False\<close> the second.
\<close>

fun run_two :: "env \<Rightarrow> string \<Rightarrow> bool list \<Rightarrow> pc \<times> pc \<times> world \<Rightarrow> pc \<times> pc \<times> world" where
  "run_two e crlURL [] c = c"
| "run_two e crlURL (first # sched) (p1, p2, w) =
     (if first then
        (case call_step e crlURL p1 w of (p1', w') \<Rightarrow> run_two e crlURL sched (p1', p2, w'))
      else
        (case call_step e crlURL p2 w of (p2', w') \<Rightarrow> run_two e crlURL sched (p1, p2', w')))"

text \<open>
  A call is in flight from the moment it has passed the prologue until it has run its
  deferred release.
\<close>

fun in_flight :: "pc \<Rightarrow> bool" where
  "in_flight InFlight = True"
| "in_flight (AtRelease err) = True"
| "in_flight AtCheck = False"
| "in_flight AtAcquire = False"
| "in_flight (Returned err) = False"

fun has_returned :: "pc \<Rightarrow> bool" where
  "has_returned (Returned err) = True"
| "has_returned AtCheck = False"
| "has_returned AtAcquire = False"
| "has_returned InFlight = False"
| "has_returned (AtRelease err) = False"

text \<open>
  A schedule lets the checks overlap when, at some step, the call that moves is about to
  check the lease while the other call stands between its own check and its set.
\<close>

fun overlapping_check :: "env \<Rightarrow> string \<Rightarrow> bool list \<Rightarrow> pc \<times> pc \<times> world \<Rightarrow> bool" where
  "overlapping_check e crlURL [] c = False"
| "overlapping_check e crlURL (first # sched) (p1, p2, w) =
     ((if first then p1 = AtCheck \<and> p2 = AtAcquire else p2 = AtCheck \<and> p1 = AtAcquire) \<or>
      overlapping_check e crlURL sched (run_two e crlURL [first] (p1, p2, w)))"

section \<open>Notions used to state the properties\<close>

text \<open>The lease of a locator is held: its key reads \<open>true\<close> and has not expired.\<close>

definition lease_held :: "world \<Rightarrow> string \<Rightarrow> bool" where
  "lease_held w url =
     (case kv w (''crl_processing:'' @ url) of
        None \<Rightarrow> False
      | Some en \<Rightarrow> rval en = RStr ''true'' \<and> clock w < rset_at en + rttl en)"

text \<open>A call sees the lease as held: a cache is configured, the check succeeds, the lease is held.\<close>

definition lease_blocks :: "env \<Rightarrow> string \<Rightarrow> world \<Rightarrow> bool" where
  "lease_blocks e url w =
     (redis_configured w \<and> \<not> redis_fails e (redis_calls w) \<and> lease_held w url)"

text \<open>
  What holds of two calls as long as no check overlaps: a call standing between its check
  and its set, or in flight, has the other call before its check or returned; and while a
  call is in flight the lease is held.
\<close>

definition excl :: "string \<Rightarrow> pc \<Rightarrow> pc \<Rightarrow> world \<Rightarrow> bool" where
  "excl url a b w =
     ((a = AtAcquire \<longrightarrow> b = AtCheck \<or> has_returned b) \<and>
      (in_flight a \<longrightarrow> lease_held w url \<and> (b = AtCheck \<or> has_returned b)))"

text \<open>A transaction on a batch of \<open>n\<close> certificates with this outcome commits.\<close>

fun tx_commits :: "tx_outcome \<Rightarrow> nat \<Rightarrow> bool" where
  "tx_commits TxOk n = True"
| "tx_commits (TxExecFails i) n = (n \<le> i)"
| "tx_commits TxBeginFails n = False"
| "tx_commits TxPrepareFails n = False"
| "tx_commits TxCommitFails n = False"

text \<open>Upserting a list of certificates in order, at one instant.\<close>

definition upsert_all :: "int \<Rightarrow> RevokedCertificate list \<Rightarrow> (string \<rightharpoonup> cert_row) \<Rightarrow> (string \<rightharpoonup> cert_row)" where
  "upsert_all now certs tbl = foldl (\<lambda>t cert. upsert now cert t) tbl certs"

text \<open>A list cut into consecutive pieces of \<open>n\<close> elements, the last one possibly shorter.\<close>

function chunks :: "nat \<Rightarrow> 'a list \<Rightarrow> 'a list list" where
  "chunks n xs = (if n = 0 \<or> xs = [] then [] else take n xs # chunks n (drop n xs))"
  by pat_completeness auto
termination
  by (relation "measure (\<lambda>(n, xs). length xs)") auto

declare chunks.simps [simp del]

text \<open>
  What a sequence of batches leaves in the table when the \<open>k\<close>-th database command is the
  first of them: each batch is applied whole if its transaction commits, and not at all
  otherwise.
\<close>

fun apply_batches :: "env \<Rightarrow> int \<Rightarrow> nat \<Rightarrow> RevokedCertificate list list \<Rightarrow> (string \<rightharpoonup> cert_row)
    \<Rightarrow> (string \<rightharpoonup> cert_row)" where
  "apply_batches e now k [] tbl = tbl"
| "apply_batches e now k (b # bs) tbl =
     apply_batches e now (Suc k) bs
       (if tx_commits (tx_outcome_of e k b) (length b) then upsert_all now b tbl else tbl)"

text \<open>A sequence of flushes, one per batch.\<close>

definition flush_all :: "env \<Rightarrow> string \<Rightarrow> RevokedCertificate list list \<Rightarrow> world \<times> nat \<Rightarrow> world \<times> nat" where
  "flush_all e iss bs st = foldl (\<lambda>st' b. flushBatch e iss b st') st bs"

text \<open>The records of the store: each row without its \<open>updated_at\<close>.\<close>

definition records :: "world \<Rightarrow> (string \<rightharpoonup> RevokedCertificate)" where
  "records w = (\<lambda>serial. map_option row_cert (db w serial))"

section \<open>Concrete inputs\<close>

text \<open>An empty store with and without a cache, at instant 0.\<close>

definition world_cache :: world where
  "world_cache = \<lparr>db = Map.empty, crl_info = Map.empty, redis_configured = True,
                  kv = Map.empty, stats = (\<lambda>k. 0), clock = 0, db_calls = 0, redis_calls = 0,
                  batch_log = [], download_log = []\<rparr>"

definition world_nocache :: world where
  "world_nocache = world_cache\<lparr>redis_configured := False\<rparr>"

text \<open>
  A list with one entry, serial 255, whose reason extension carries the byte 1, and a list
  whose entry carries the byte 7, which is not a key of the table.
\<close>

definition reason_ext :: "byte \<Rightarrow> Extension" where
  "reason_ext b = \<lparr>ext_Id = [2, 5, 29, 21], ext_Critical = False, ext_Value = [b]\<rparr>"

definition issuer_ca :: Name where
  "issuer_ca = \<lparr>CommonName = ''CA'', Organization = [], OrganizationalUnit = [], Name_String = ''CN=CA''\<rparr>"

definition crl_255 :: CertificateList where
  "crl_255 = \<lparr>tbs_Issuer = issuer_ca, tbs_NextUpdate = 100,
              tbs_RevokedCertificates =
                [\<lparr>SerialNumber = 255, RevocationTime = 5, Extensions = [reason_ext 1]\<rparr>]\<rparr>"

text \<open>The certificate the loop builds from the entry of \<open>crl_255\<close>.\<close>

definition cert_255 :: RevokedCertificate where
  "cert_255 = \<lparr>Serial = ''255'', RevocationDate = 5, Reason = 1, ReasonText = [],
                CertificateAuthority = ''CA''\<rparr>"

text \<open>
  A list with two entries of the same serial 255, revoked at 5 and at 6, and the two
  certificates the loop builds from them.
\<close>

definition crl_dup :: CertificateList where
  "crl_dup = \<lparr>tbs_Issuer = issuer_ca, tbs_NextUpdate = 100,
              tbs_RevokedCertificates =
                [\<lparr>SerialNumber = 255, RevocationTime = 5, Extensions = []\<rparr>,
                 \<lparr>SerialNumber = 255, RevocationTime = 6, Extensions = []\<rparr>]\<rparr>"

definition cert_dup :: "int \<Rightarrow> RevokedCertificate" where
  "cert_dup t = \<lparr>Serial = ''255'', RevocationDate = t, Reason = 0, ReasonText = [],
                 CertificateAuthority = ''CA''\<rparr>"

text \<open>An outside world in which every command succeeds and every locator serves \<open>crl_255\<close>.\<close>

definition env_ok :: env where
  "env_ok = \<lparr>load_file = (\<lambda>f. Inr [''http://ca/a.crl'', ''http://ca/b.crl'']),
             http_download = (\<lambda>u. Inr []),
             x509_ParseCRL = (\<lambda>d. Inr crl_255),
             tx_outcome_of = (\<lambda>k b. TxOk),
             db_stmt_fails = (\<lambda>k. False),
             redis_fails = (\<lambda>k. False)\<rparr>"

text \<open>The same serving \<open>crl_dup\<close>, and the same as \<open>env_ok\<close> except that every commit fails.\<close>

definition env_dup :: env where
  "env_dup = env_ok\<lparr>x509_ParseCRL := (\<lambda>d. Inr crl_dup)\<rparr>"

definition env_commit_fails :: env where
  "env_commit_fails = env_ok\<lparr>tx_outcome_of := (\<lambda>k b. TxCommitFails)\<rparr>"

text \<open>The same as \<open>env_ok\<close>, except that the first Redis command fails.\<close>

definition env_first_redis_fails :: env where
  "env_first_redis_fails = env_ok\<lparr>redis_fails := (\<lambda>k. k = 0)\<rparr>"

text \<open>A cache in which the lease of \<open>http://ca/a.crl\<close> is held.\<close>

definition world_leased :: world where
  "world_leased =
     world_cache\<lparr>kv := [''crl_processing:http://ca/a.crl'' \<mapsto>
                            \<lparr>rval = RStr ''true'', rttl = 30 * Minute, rset_at = 0\<rparr>]\<rparr>"

text \<open>
  A reason extension as a conforming list carries it: the value is the DER encoding of the
  ENUMERATED reason code, that is the tag 10, the length 1 and the code. A list whose
  entry, serial 255, has the code 1 in that form, and an outside world serving it.
\<close>

definition reason_ext_der :: "byte \<Rightarrow> Extension" where
  "reason_ext_der code =
     \<lparr>ext_Id = [2, 5, 29, 21], ext_Critical = False, ext_Value = [10, 1, code]\<rparr>"

definition crl_255_der :: CertificateList where
  "crl_255_der = \<lparr>tbs_Issuer = issuer_ca, tbs_NextUpdate = 100,
                  tbs_RevokedCertificates =
                    [\<lparr>SerialNumber = 255, RevocationTime = 5, Extensions = [reason_ext_der 1]\<rparr>]\<rparr>"

definition env_der :: env where
  "env_der = env_ok\<lparr>x509_ParseCRL := (\<lambda>d. Inr crl_255_der)\<rparr>"

text \<open>The same as \<open>env_ok\<close>, except that every Redis command fails.\<close>

definition env_redis_down :: env where
  "env_redis_down = env_ok\<lparr>redis_fails := (\<lambda>k. True)\<rparr>"

text \<open>
  The same as \<open>env_ok\<close>, except that \<open>http://ca/a.crl\<close> cannot be downloaded.
\<close>

definition env_a_down :: env where
  "env_a_down = env_ok\<lparr>http_download := (\<lambda>u. if u = ''http://ca/a.crl'' then Inl ErrDownload else Inr [])\<rparr>"

text \<open>
  A list of \<open>n\<close> entries with the serials 1 to \<open>n\<close> and no extension, the list of
  1203 entries, an outside world serving it, and one in which the transaction issued as
  database command number 2 (the second batch, after the descriptor and the first batch)
  fails to commit.
\<close>

fun serial_entries :: "nat \<Rightarrow> RevokedEntry list" where
  "serial_entries 0 = []"
| "serial_entries (Suc n) =
     serial_entries n @ [\<lparr>SerialNumber = int (Suc n), RevocationTime = 5, Extensions = []\<rparr>]"

definition crl_1203 :: CertificateList where
  "crl_1203 = \<lparr>tbs_Issuer = issuer_ca, tbs_NextUpdate = 100,
               tbs_RevokedCertificates = serial_entries 1203\<rparr>"

definition env_1203 :: env where
  "env_1203 = env_ok\<lparr>x509_ParseCRL := (\<lambda>d. Inr crl_1203)\<rparr>"

definition env_1203_second_fails :: env where
  "env_1203_second_fails =
     env_1203\<lparr>tx_outcome_of := (\<lambda>k b. if k = 2 then TxCommitFails else TxOk)\<rparr>"

section \<open>Evaluation on concrete inputs\<close>

lemmas eval_defs =
  ProcessSingleCRL_def leasePrologue_def leaseEpilogue_def ingestBody_def flushBatch_def
  BatchInsertRevokedCertificates_def IsCRLProcessing_def SetCRLProcessing_def client_Get_def
  client_Set_def SetCertificateStatus_def redis_GetCertificateStatus_def InsertCRLInfo_def
  db_GetCertificateStatus_def CheckCertificateStatus_def IncrementStats_def
  mkRevokedCertificate_def extractReason_def extractIssuerName_def revokedStatus_def upsert_def
  batchSize_def world_cache_def world_nocache_def world_leased_def env_ok_def crl_255_def
  issuer_ca_def reason_ext_def formatSerial_def decimal.simps digit_char_def
  normalizeSerial_def RevocationReasons_def reasons_index_def Hour_def Minute_def Second_def
  call_step_def env_commit_fails_def env_first_redis_fails_def env_redis_down_def
  cert_255_def lease_held_def lease_blocks_def reason_ext_der_def crl_255_der_def env_der_def
  crl_dup_def cert_dup_def env_dup_def Let_def

section \<open>Frame properties of the commands\<close>

lemma client_Set_frame [simp]:
  "db (snd (client_Set e key v ttl w)) = db w"
  "crl_info (snd (client_Set e key v ttl w)) = crl_info w"
  "redis_configured (snd (client_Set e key v ttl w)) = redis_configured w"
  "clock (snd (client_Set e key v ttl w)) = clock w"
  "db_calls (snd (client_Set e key v ttl w)) = db_calls w"
  "batch_log (snd (client_Set e key v ttl w)) = batch_log w"
  "redis_calls (snd (client_Set e key v ttl w)) = Suc (redis_calls w)"
  by (simp_all add: client_Set_def Let_def)

lemma client_Set_kv:
  "kv (snd (client_Set e key v ttl w)) =
     (if redis_fails e (redis_calls w) then kv w
      else (kv w)(key \<mapsto> \<lparr>rval = v, rttl = ttl, rset_at = clock w\<rparr>))"
  by (simp add: client_Set_def Let_def)

lemma client_Get_frame [simp]:
  "db (snd (client_Get e key w)) = db w"
  "crl_info (snd (client_Get e key w)) = crl_info w"
  "redis_configured (snd (client_Get e key w)) = redis_configured w"
  "clock (snd (client_Get e key w)) = clock w"
  "db_calls (snd (client_Get e key w)) = db_calls w"
  "batch_log (snd (client_Get e key w)) = batch_log w"
  "kv (snd (client_Get e key w)) = kv w"
  "redis_calls (snd (client_Get e key w)) = Suc (redis_calls w)"
  by (simp_all add: client_Get_def Let_def split: option.splits)

lemma client_Get_world: "snd (client_Get e key w) = w\<lparr>redis_calls := Suc (redis_calls w)\<rparr>"
  by (simp add: client_Get_def Let_def split: option.splits)

lemma IsCRLProcessing_world: "snd (IsCRLProcessing e url w) = w\<lparr>redis_calls := Suc (redis_calls w)\<rparr>"
  by (simp add: IsCRLProcessing_def client_Get_def Let_def split: option.splits)

lemma IsCRLProcessing_result:
  "fst (IsCRLProcessing e url w) = Inr True \<longleftrightarrow> \<not> redis_fails e (redis_calls w) \<and> lease_held w url"
  by (auto simp: IsCRLProcessing_def client_Get_def lease_held_def Let_def split: option.splits)

lemma redis_Get_world:
  "snd (redis_GetCertificateStatus e serial w) = w\<lparr>redis_calls := Suc (redis_calls w)\<rparr>"
  by (simp add: redis_GetCertificateStatus_def client_Get_def Let_def
      split: option.splits redis_val.splits)

lemma IncrementStats_frame [simp]:
  "db (IncrementStats e k w) = db w"
  "crl_info (IncrementStats e k w) = crl_info w"
  "redis_configured (IncrementStats e k w) = redis_configured w"
  "clock (IncrementStats e k w) = clock w"
  "db_calls (IncrementStats e k w) = db_calls w"
  "batch_log (IncrementStats e k w) = batch_log w"
  "kv (IncrementStats e k w) = kv w"
  by (simp_all add: IncrementStats_def Let_def)

lemma InsertCRLInfo_frame [simp]:
  "db (snd (InsertCRLInfo e ci w)) = db w"
  "redis_configured (snd (InsertCRLInfo e ci w)) = redis_configured w"
  "clock (snd (InsertCRLInfo e ci w)) = clock w"
  "db_calls (snd (InsertCRLInfo e ci w)) = Suc (db_calls w)"
  "batch_log (snd (InsertCRLInfo e ci w)) = batch_log w"
  "kv (snd (InsertCRLInfo e ci w)) = kv w"
  "redis_calls (snd (InsertCRLInfo e ci w)) = redis_calls w"
  by (simp_all add: InsertCRLInfo_def Let_def)

lemma SetCertificateStatus_frame [simp]:
  "db (snd (SetCertificateStatus e s st ttl w)) = db w"
  "crl_info (snd (SetCertificateStatus e s st ttl w)) = crl_info w"
  "redis_configured (snd (SetCertificateStatus e s st ttl w)) = redis_configured w"
  "clock (snd (SetCertificateStatus e s st ttl w)) = clock w"
  "db_calls (snd (SetCertificateStatus e s st ttl w)) = db_calls w"
  "batch_log (snd (SetCertificateStatus e s st ttl w)) = batch_log w"
  by (simp_all add: SetCertificateStatus_def)

lemma SetCRLProcessing_frame [simp]:
  "db (snd (SetCRLProcessing e u b w)) = db w"
  "crl_info (snd (SetCRLProcessing e u b w)) = crl_info w"
  "redis_configured (snd (SetCRLProcessing e u b w)) = redis_configured w"
  "clock (snd (SetCRLProcessing e u b w)) = clock w"
  "db_calls (snd (SetCRLProcessing e u b w)) = db_calls w"
  "batch_log (snd (SetCRLProcessing e u b w)) = batch_log w"
  by (simp_all add: SetCRLProcessing_def Let_def)

lemma cacheCertificates_frame [simp]:
  "db (cacheCertificates e iss certs w) = db w"
  "crl_info (cacheCertificates e iss certs w) = crl_info w"
  "redis_configured (cacheCertificates e iss certs w) = redis_configured w"
  "clock (cacheCertificates e iss certs w) = clock w"
  "db_calls (cacheCertificates e iss certs w) = db_calls w"
  "batch_log (cacheCertificates e iss certs w) = batch_log w"
  by (induction certs arbitrary: w; simp)+

section \<open>The batch writer\<close>

lemma upsert_all_Nil [simp]: "upsert_all now [] tbl = tbl"
  by (simp add: upsert_all_def)

lemma upsert_all_Cons [simp]: "upsert_all now (c # cs) tbl = upsert_all now cs (upsert now c tbl)"
  by (simp add: upsert_all_def)

lemma upsert_all_append [simp]:
  "upsert_all now (xs @ ys) tbl = upsert_all now ys (upsert_all now xs tbl)"
  by (simp add: upsert_all_def)

lemma txExec_commits:
  "\<forall>j < length certs. oc \<noteq> TxExecFails (i + j) \<Longrightarrow> txExec oc now certs i tx = Inr (upsert_all now certs tx)"
proof (induction certs arbitrary: i tx)
  case Nil
  then show ?case by simp
next
  case (Cons c cs)
  from Cons.prems have h0: "oc \<noteq> TxExecFails i" by force
  have "\<forall>j < length cs. oc \<noteq> TxExecFails (Suc i + j)"
  proof (intro allI impI)
    fix j assume "j < length cs"
    then have "Suc j < length (c # cs)" by simp
    with Cons.prems have "oc \<noteq> TxExecFails (i + Suc j)" by blast
    then show "oc \<noteq> TxExecFails (Suc i + j)" by simp
  qed
  with Cons.IH h0 show ?case by simp
qed

lemma txExec_fails:
  "j < length certs \<Longrightarrow> oc = TxExecFails (i + j) \<Longrightarrow> \<exists>err. txExec oc now certs i tx = Inl err"
proof (induction certs arbitrary: i j tx)
  case Nil
  then show ?case by simp
next
  case (Cons c cs)
  show ?case
  proof (cases j)
    case 0
    with Cons.prems show ?thesis by simp
  next
    case (Suc j')
    with Cons.prems have "j' < length cs" "oc = TxExecFails (Suc i + j')" by simp_all
    from Cons.IH [OF this] Suc Cons.prems show ?thesis by simp
  qed
qed

lemma BatchInsert_frame [simp]:
  "crl_info (snd (BatchInsertRevokedCertificates e certs w)) = crl_info w"
  "redis_configured (snd (BatchInsertRevokedCertificates e certs w)) = redis_configured w"
  "clock (snd (BatchInsertRevokedCertificates e certs w)) = clock w"
  "kv (snd (BatchInsertRevokedCertificates e certs w)) = kv w"
  "redis_calls (snd (BatchInsertRevokedCertificates e certs w)) = redis_calls w"
  "batch_log (snd (BatchInsertRevokedCertificates e certs w)) = batch_log w @ [certs]"
  by (simp_all add: BatchInsertRevokedCertificates_def Let_def split: sum.splits)

lemma BatchInsert_db_calls:
  "db_calls (snd (BatchInsertRevokedCertificates e certs w)) =
     (if certs = [] then db_calls w else Suc (db_calls w))"
  by (simp add: BatchInsertRevokedCertificates_def Let_def split: sum.splits)

lemma BatchInsert_commits:
  assumes "certs \<noteq> []" "tx_commits (tx_outcome_of e (db_calls w) certs) (length certs)"
  shows "fst (BatchInsertRevokedCertificates e certs w) = None"
    and "db (snd (BatchInsertRevokedCertificates e certs w)) = upsert_all (clock w) certs (db w)"
proof -
  let ?oc = "tx_outcome_of e (db_calls w) certs"
  from assms(2) have oc: "?oc \<noteq> TxBeginFails" "?oc \<noteq> TxPrepareFails" "?oc \<noteq> TxCommitFails"
    by (cases ?oc; simp)+
  from assms(2) have "\<forall>j < length certs. ?oc \<noteq> TxExecFails (0 + j)"
    by (cases ?oc) auto
  then have ex: "txExec ?oc (clock w) certs 0 (db w) = Inr (upsert_all (clock w) certs (db w))"
    by (rule txExec_commits)
  from assms(1) oc ex show "fst (BatchInsertRevokedCertificates e certs w) = None"
    by (simp add: BatchInsertRevokedCertificates_def Let_def)
  from assms(1) oc ex show "db (snd (BatchInsertRevokedCertificates e certs w)) = upsert_all (clock w) certs (db w)"
    by (simp add: BatchInsertRevokedCertificates_def Let_def)
qed

lemma BatchInsert_aborts:
  assumes "certs \<noteq> []" "\<not> tx_commits (tx_outcome_of e (db_calls w) certs) (length certs)"
  shows "fst (BatchInsertRevokedCertificates e certs w) \<noteq> None"
    and "db (snd (BatchInsertRevokedCertificates e certs w)) = db w"
proof -
  let ?oc = "tx_outcome_of e (db_calls w) certs"
  have ex: "\<exists>err. txExec ?oc (clock w) certs 0 (db w) = Inl err" if "?oc = TxExecFails j" for j
  proof -
    from that assms(2) have "j < length certs" by simp
    with that show ?thesis using txExec_fails [of j certs ?oc 0] by simp
  qed
  from assms ex show "fst (BatchInsertRevokedCertificates e certs w) \<noteq> None"
    by (cases ?oc) (auto simp: BatchInsertRevokedCertificates_def Let_def split: sum.splits)
  from assms ex show "db (snd (BatchInsertRevokedCertificates e certs w)) = db w"
    by (cases ?oc) (auto simp: BatchInsertRevokedCertificates_def Let_def split: sum.splits)
qed

lemma BatchInsert_empty:
  "fst (BatchInsertRevokedCertificates e [] w) = None"
  "db (snd (BatchInsertRevokedCertificates e [] w)) = db w"
  by (simp_all add: BatchInsertRevokedCertificates_def Let_def)

section \<open>One flush\<close>

lemma flushBatch_world:
  "fst (flushBatch e iss certs (w, p)) =
     (let w1 = snd (BatchInsertRevokedCertificates e certs w)
      in if redis_configured w then cacheCertificates e iss certs w1 else w1)"
proof -
  obtain err w1 where b: "BatchInsertRevokedCertificates e certs w = (err, w1)"
    by (cases "BatchInsertRevokedCertificates e certs w")
  with BatchInsert_frame(2) [of e certs w] have "redis_configured w1 = redis_configured w"
    by simp
  with b show ?thesis
    by (simp add: flushBatch_def Let_def)
qed

lemma flushBatch_processed:
  "snd (flushBatch e iss certs (w, p)) =
     (if fst (BatchInsertRevokedCertificates e certs w) \<noteq> None then p else p + length certs)"
  by (simp add: flushBatch_def Let_def split: prod.splits)

lemma flushBatch_frame [simp]:
  "crl_info (fst (flushBatch e iss certs st)) = crl_info (fst st)"
  "redis_configured (fst (flushBatch e iss certs st)) = redis_configured (fst st)"
  "clock (fst (flushBatch e iss certs st)) = clock (fst st)"
  "batch_log (fst (flushBatch e iss certs st)) = batch_log (fst st) @ [certs]"
  "db (fst (flushBatch e iss certs st)) = db (snd (BatchInsertRevokedCertificates e certs (fst st)))"
  "db_calls (fst (flushBatch e iss certs st)) = (if certs = [] then db_calls (fst st) else Suc (db_calls (fst st)))"
  by (cases st; simp add: flushBatch_world Let_def BatchInsert_db_calls)+

section \<open>Cutting a list into batches\<close>

lemma chunks_Nil [simp]: "chunks n [] = []"
  by (simp add: chunks.simps)

lemma chunks_step: "0 < n \<Longrightarrow> xs \<noteq> [] \<Longrightarrow> chunks n xs = take n xs # chunks n (drop n xs)"
  by (subst chunks.simps) simp

lemma chunks_short: "0 < n \<Longrightarrow> xs \<noteq> [] \<Longrightarrow> length xs \<le> n \<Longrightarrow> chunks n xs = [xs]"
  by (simp add: chunks_step)

lemma chunks_full: "0 < n \<Longrightarrow> length xs = n \<Longrightarrow> chunks n (xs @ ys) = xs # chunks n ys"
  by (cases "xs = []") (simp_all add: chunks_step)

lemma concat_chunks: "0 < n \<Longrightarrow> concat (chunks n xs) = xs"
proof (induction n xs rule: chunks.induct)
  case (1 n xs)
  show ?case
  proof (cases "xs = []")
    case True
    then show ?thesis by simp
  next
    case False
    with 1 have "concat (chunks n (drop n xs)) = drop n xs" by simp
    with False 1(2) show ?thesis by (simp add: chunks_step)
  qed
qed

lemma chunks_nonempty: "0 < n \<Longrightarrow> b \<in> set (chunks n xs) \<Longrightarrow> b \<noteq> []"
proof (induction n xs rule: chunks.induct)
  case (1 n xs)
  show ?case
  proof (cases "xs = []")
    case True
    with 1(3) show ?thesis by simp
  next
    case False
    with 1(2,3) have "b = take n xs \<or> b \<in> set (chunks n (drop n xs))"
      by (simp add: chunks_step)
    with 1(1,2) False show ?thesis by auto
  qed
qed

lemma length_chunks:
  "0 < n \<Longrightarrow> map length (chunks n xs) =
     replicate (length xs div n) n @ (if length xs mod n = 0 then [] else [length xs mod n])"
proof (induction n xs rule: chunks.induct)
  case (1 n xs)
  show ?case
  proof (cases "xs = []")
    case True
    then show ?thesis by simp
  next
    case False
    note ne = this
    show ?thesis
    proof (cases "length xs < n")
      case True
      with ne 1(2) have "chunks n xs = [xs]" by (simp add: chunks_short)
      with True ne show ?thesis by simp
    next
      case False
      then have ge: "n \<le> length xs" by simp
      from 1(1) ne 1(2) have ih: "map length (chunks n (drop n xs)) =
          replicate (length (drop n xs) div n) n @
          (if length (drop n xs) mod n = 0 then [] else [length (drop n xs) mod n])"
        by simp
      from ge 1(2) have d: "length xs div n = Suc ((length xs - n) div n)"
        by (simp add: le_div_geq)
      from ge have m: "length xs mod n = (length xs - n) mod n"
        by (simp add: le_mod_geq)
      from ne 1(2) ge ih d m show ?thesis
        by (simp add: chunks_step min_def)
    qed
  qed
qed

section \<open>The ingestion loop as a sequence of flushes\<close>

lemma flush_all_simps [simp]:
  "flush_all e iss [] st = st"
  "flush_all e iss (b # bs) st = flush_all e iss bs (flushBatch e iss b st)"
  by (simp_all add: flush_all_def)

lemma ingestLoop_chunks:
  "length acc < batchSize \<Longrightarrow>
   (case ingestLoop e iss es acc st of
      (certificates, st') \<Rightarrow> if length certificates > 0 then flushBatch e iss certificates st' else st')
     = flush_all e iss (chunks batchSize (acc @ map (mkRevokedCertificate iss) es)) st"
proof (induction es arbitrary: acc st)
  case Nil
  have b: "0 < batchSize" by (simp add: batchSize_def)
  show ?case
  proof (cases "acc = []")
    case True
    then show ?thesis by simp
  next
    case False
    with Nil b have "chunks batchSize acc = [acc]" by (simp add: chunks_short)
    with False show ?thesis by simp
  qed
next
  case (Cons x xs)
  have b: "0 < batchSize" by (simp add: batchSize_def)
  let ?acc' = "acc @ [mkRevokedCertificate iss x]"
  show ?case
  proof (cases "length ?acc' \<ge> batchSize")
    case True
    with Cons.prems have len: "length ?acc' = batchSize" by simp
    have "chunks batchSize (?acc' @ map (mkRevokedCertificate iss) xs)
            = ?acc' # chunks batchSize (map (mkRevokedCertificate iss) xs)"
      using b len by (rule chunks_full)
    moreover have "length ([]::RevokedCertificate list) < batchSize" using b by simp
    note Cons.IH [OF this, of "flushBatch e iss ?acc' st"]
    ultimately show ?thesis using True by (simp add: Let_def)
  next
    case False
    then have "length ?acc' < batchSize" by simp
    from Cons.IH [OF this, of st] False show ?thesis by (simp add: Let_def)
  qed
qed

lemma ingestBody_flushes:
  assumes "http_download e url = Inr data" "x509_ParseCRL e data = Inr crl"
  shows "ingestBody e url w =
     (None, flush_all e (extractIssuerName (tbs_Issuer crl))
        (chunks batchSize (map (mkRevokedCertificate (extractIssuerName (tbs_Issuer crl)))
           (tbs_RevokedCertificates crl)))
        (snd (InsertCRLInfo e \<lparr>URL = url, Issuer = extractIssuerName (tbs_Issuer crl),
                               NextUpdate = tbs_NextUpdate crl, LastProcessed = clock w,
                               CertCount = length (tbs_RevokedCertificates crl)\<rparr>
                 (w\<lparr>download_log := download_log w @ [url]\<rparr>)), 0))"
proof -
  let ?iss = "extractIssuerName (tbs_Issuer crl)"
  let ?w1 = "snd (InsertCRLInfo e \<lparr>URL = url, Issuer = ?iss,
                               NextUpdate = tbs_NextUpdate crl, LastProcessed = clock w,
                               CertCount = length (tbs_RevokedCertificates crl)\<rparr>
                 (w\<lparr>download_log := download_log w @ [url]\<rparr>))"
  have "length ([]::RevokedCertificate list) < batchSize" by (simp add: batchSize_def)
  note l = ingestLoop_chunks [OF this, of e ?iss "tbs_RevokedCertificates crl" "(?w1, 0)"]
  obtain certificates st' where
    r: "ingestLoop e ?iss (tbs_RevokedCertificates crl) [] (?w1, 0) = (certificates, st')"
    by (cases "ingestLoop e ?iss (tbs_RevokedCertificates crl) [] (?w1, 0)")
  from l r assms show ?thesis
    by (simp add: ingestBody_def Let_def)
qed

lemma ingestBody_fails:
  "http_download e url = Inl err \<Longrightarrow>
     ingestBody e url w = (Some ErrDownload, (w\<lparr>download_log := download_log w @ [url]\<rparr>, 0))"
  "http_download e url = Inr data \<Longrightarrow> x509_ParseCRL e data = Inl err \<Longrightarrow>
     ingestBody e url w = (Some ErrParse, (w\<lparr>download_log := download_log w @ [url]\<rparr>, 0))"
  by (simp_all add: ingestBody_def Let_def)

lemma flushBatch_db:
  "b \<noteq> [] \<Longrightarrow> db (fst (flushBatch e iss b st)) =
     (if tx_commits (tx_outcome_of e (db_calls (fst st)) b) (length b)
      then upsert_all (clock (fst st)) b (db (fst st)) else db (fst st))"
  by (simp add: BatchInsert_commits BatchInsert_aborts)

lemma flushBatch_processed_commits:
  "b \<noteq> [] \<Longrightarrow> tx_commits (tx_outcome_of e (db_calls (fst st)) b) (length b) \<Longrightarrow>
   snd (flushBatch e iss b st) = snd st + length b"
  by (cases st) (simp add: flushBatch_processed BatchInsert_commits)

lemma flush_all_frame [simp]:
  "crl_info (fst (flush_all e iss bs st)) = crl_info (fst st)"
  "redis_configured (fst (flush_all e iss bs st)) = redis_configured (fst st)"
  "clock (fst (flush_all e iss bs st)) = clock (fst st)"
  "batch_log (fst (flush_all e iss bs st)) = batch_log (fst st) @ bs"
  by (induction bs arbitrary: st; simp)+

lemma flush_all_db:
  "\<forall>b \<in> set bs. b \<noteq> [] \<Longrightarrow>
   db (fst (flush_all e iss bs st)) =
     apply_batches e (clock (fst st)) (db_calls (fst st)) bs (db (fst st))"
proof (induction bs arbitrary: st)
  case Nil
  then show ?case by simp
next
  case (Cons b bs)
  then have ne: "b \<noteq> []" and rest: "\<forall>b \<in> set bs. b \<noteq> []" by simp_all
  from Cons.IH [OF rest, of "flushBatch e iss b st"] ne show ?case
    by (simp add: flushBatch_db del: flushBatch_frame(5))
qed

lemma apply_batches_all_commit:
  "\<forall>k b. tx_commits (tx_outcome_of e k b) (length b) \<Longrightarrow>
   apply_batches e now k bs tbl = upsert_all now (concat bs) tbl"
  by (induction bs arbitrary: k tbl) simp_all

lemma flush_all_processed:
  "\<forall>b \<in> set bs. b \<noteq> [] \<Longrightarrow> \<forall>k b. tx_commits (tx_outcome_of e k b) (length b) \<Longrightarrow>
   snd (flush_all e iss bs st) = snd st + length (concat bs)"
proof (induction bs arbitrary: st)
  case Nil
  then show ?case by simp
next
  case (Cons b bs)
  then have ne: "b \<noteq> []" and rest: "\<forall>b \<in> set bs. b \<noteq> []" by simp_all
  from Cons.prems(2) have c: "tx_commits (tx_outcome_of e (db_calls (fst st)) b) (length b)"
    by blast
  from Cons.IH [OF rest Cons.prems(2), of "flushBatch e iss b st"]
    flushBatch_processed_commits [OF ne c, of iss]
  show ?case by simp
qed

lemma dom_upsert_all: "dom (upsert_all now certs tbl) = dom tbl \<union> Serial ` set certs"
  by (induction certs arbitrary: tbl) (auto simp: upsert_def)

lemma dom_apply_batches_mono: "dom tbl \<subseteq> dom (apply_batches e now k bs tbl)"
proof (induction bs arbitrary: k tbl)
  case Nil
  then show ?case by simp
next
  case (Cons b bs)
  have "dom tbl \<subseteq> dom (if tx_commits (tx_outcome_of e k b) (length b) then upsert_all now b tbl else tbl)"
    by (simp add: dom_upsert_all)
  also have "\<dots> \<subseteq> dom (apply_batches e now (Suc k) bs
      (if tx_commits (tx_outcome_of e k b) (length b) then upsert_all now b tbl else tbl))"
    by (rule Cons.IH)
  finally show ?case by simp
qed

lemma apply_batches_committed:
  "j < length bs \<Longrightarrow> tx_commits (tx_outcome_of e (k + j) (bs ! j)) (length (bs ! j)) \<Longrightarrow>
   Serial ` set (bs ! j) \<subseteq> dom (apply_batches e now k bs tbl)"
proof (induction bs arbitrary: j k tbl)
  case Nil
  then show ?case by simp
next
  case (Cons b bs)
  show ?case
  proof (cases j)
    case 0
    with Cons.prems have "Serial ` set b \<subseteq> dom (upsert_all now b tbl)"
      by (simp add: dom_upsert_all)
    also have "\<dots> \<subseteq> dom (apply_batches e now (Suc k) bs (upsert_all now b tbl))"
      by (rule dom_apply_batches_mono)
    finally show ?thesis using 0 Cons.prems by simp
  next
    case (Suc j')
    with Cons.prems have "j' < length bs"
      "tx_commits (tx_outcome_of e (Suc k + j') (bs ! j')) (length (bs ! j'))" by simp_all
    from Cons.IH [OF this] Suc show ?thesis by simp
  qed
qed

text \<open>The certificates, the batches and the state after the descriptor upsert, for a parsed list.\<close>

lemma ingestBody_result:
  assumes "http_download e url = Inr data" "x509_ParseCRL e data = Inr crl"
  defines "iss \<equiv> extractIssuerName (tbs_Issuer crl)"
  defines "bs \<equiv> chunks batchSize (map (mkRevokedCertificate iss) (tbs_RevokedCertificates crl))"
  shows "batch_log (fst (snd (ingestBody e url w))) = batch_log w @ bs"
    and "db (fst (snd (ingestBody e url w))) = apply_batches e (clock w) (Suc (db_calls w)) bs (db w)"
    and "clock (fst (snd (ingestBody e url w))) = clock w"
    and "redis_configured (fst (snd (ingestBody e url w))) = redis_configured w"
    and "\<forall>k b. tx_commits (tx_outcome_of e k b) (length b) \<Longrightarrow>
           snd (snd (ingestBody e url w)) = length (tbs_RevokedCertificates crl)"
proof -
  have b: "0 < batchSize" by (simp add: batchSize_def)
  have ne: "\<forall>b \<in> set bs. b \<noteq> []"
    using chunks_nonempty [OF b] by (auto simp: bs_def)
  note f = ingestBody_flushes [OF assms(1,2), of w, folded iss_def, folded bs_def]
  show "batch_log (fst (snd (ingestBody e url w))) = batch_log w @ bs"
    by (simp add: f)
  show "db (fst (snd (ingestBody e url w))) = apply_batches e (clock w) (Suc (db_calls w)) bs (db w)"
    by (simp add: f flush_all_db [OF ne])
  show "clock (fst (snd (ingestBody e url w))) = clock w"
    by (simp add: f)
  show "redis_configured (fst (snd (ingestBody e url w))) = redis_configured w"
    by (simp add: f)
  show "snd (snd (ingestBody e url w)) = length (tbs_RevokedCertificates crl)"
    if "\<forall>k b. tx_commits (tx_outcome_of e k b) (length b)"
    using flush_all_processed [OF ne that] b by (simp add: f bs_def concat_chunks)
qed

section \<open>The lease prologue and epilogue\<close>

lemma length_serial_entries [simp]: "length (serial_entries n) = n"
  by (induction n) simp_all

lemma leasePrologue_frame:
  "db (prologue_world (leasePrologue e url w)) = db w"
  "batch_log (prologue_world (leasePrologue e url w)) = batch_log w"
  "clock (prologue_world (leasePrologue e url w)) = clock w"
  "db_calls (prologue_world (leasePrologue e url w)) = db_calls w"
  "redis_configured (prologue_world (leasePrologue e url w)) = redis_configured w"
  "crl_info (prologue_world (leasePrologue e url w)) = crl_info w"
proof -
  obtain r w1 where i: "IsCRLProcessing e url w = (r, w1)"
    by (cases "IsCRLProcessing e url w")
  with IsCRLProcessing_world [of e url w] have w1: "w1 = w\<lparr>redis_calls := Suc (redis_calls w)\<rparr>"
    by simp
  have p: "prologue_world (leasePrologue e url w) =
      (if redis_configured w
       then if r = Inr True then w1 else snd (SetCRLProcessing e url True w1)
       else w)"
    using i by (cases r) (simp_all add: leasePrologue_def)
  show "db (prologue_world (leasePrologue e url w)) = db w"
    "batch_log (prologue_world (leasePrologue e url w)) = batch_log w"
    "clock (prologue_world (leasePrologue e url w)) = clock w"
    "db_calls (prologue_world (leasePrologue e url w)) = db_calls w"
    "redis_configured (prologue_world (leasePrologue e url w)) = redis_configured w"
    "crl_info (prologue_world (leasePrologue e url w)) = crl_info w"
    by (simp_all add: p w1)
qed

lemma leaseEpilogue_frame [simp]:
  "db (leaseEpilogue e url w) = db w"
  "batch_log (leaseEpilogue e url w) = batch_log w"
  "clock (leaseEpilogue e url w) = clock w"
  "db_calls (leaseEpilogue e url w) = db_calls w"
  "redis_configured (leaseEpilogue e url w) = redis_configured w"
  "crl_info (leaseEpilogue e url w) = crl_info w"
  by (simp_all add: leaseEpilogue_def)

lemma leasePrologue_Skipped:
  "is_Skipped (leasePrologue e url w) \<longleftrightarrow> lease_blocks e url w"
proof -
  obtain r w1 where i: "IsCRLProcessing e url w = (r, w1)"
    by (cases "IsCRLProcessing e url w")
  with IsCRLProcessing_result [of e url w]
  have "r = Inr True \<longleftrightarrow> \<not> redis_fails e (redis_calls w) \<and> lease_held w url" by simp
  with i show ?thesis
    by (cases r) (auto simp: leasePrologue_def lease_blocks_def)
qed

lemma ProcessSingleCRL_entered:
  "\<not> lease_blocks e url w \<Longrightarrow>
   ProcessSingleCRL e url w =
     (fst (ingestBody e url (prologue_world (leasePrologue e url w))),
      leaseEpilogue e url (fst (snd (ingestBody e url (prologue_world (leasePrologue e url w))))))"
  using leasePrologue_Skipped [of e url w]
  by (cases "leasePrologue e url w") (auto simp: ProcessSingleCRL_def split: prod.splits)

lemma ProcessSingleCRL_blocked:
  "lease_blocks e url w \<Longrightarrow> ProcessSingleCRL e url w = (None, w\<lparr>redis_calls := Suc (redis_calls w)\<rparr>)"
  by (auto simp: lease_blocks_def lease_held_def ProcessSingleCRL_def leasePrologue_def
      IsCRLProcessing_def client_Get_def Let_def split: option.splits)

section \<open>What a flush writes to the cache\<close>

lemma SetCertificateStatus_kv:
  "kv (snd (SetCertificateStatus e s st ttl w)) =
     (if redis_fails e (redis_calls w) then kv w
      else (kv w)(''cert:'' @ s \<mapsto> \<lparr>rval = RStatus st, rttl = ttl, rset_at = clock w\<rparr>))"
  by (simp add: SetCertificateStatus_def client_Set_kv)

lemma cacheCertificates_kv_changed:
  "kv (cacheCertificates e iss certs w) key \<noteq> kv w key \<Longrightarrow>
   \<exists>cert \<in> set certs. key = ''cert:'' @ Serial cert \<and>
      kv (cacheCertificates e iss certs w) key
        = Some \<lparr>rval = RStatus (revokedStatus iss cert), rttl = 24 * Hour, rset_at = clock w\<rparr>"
proof (induction certs arbitrary: w)
  case Nil
  then show ?case by simp
next
  case (Cons c cs)
  let ?w1 = "snd (SetCertificateStatus e (Serial c) (revokedStatus iss c) (24 * Hour) w)"
  show ?case
  proof (cases "kv (cacheCertificates e iss cs ?w1) key = kv ?w1 key")
    case True
    with Cons.prems have "kv ?w1 key \<noteq> kv w key" by simp
    then have k: "key = ''cert:'' @ Serial c"
        "kv ?w1 key = Some \<lparr>rval = RStatus (revokedStatus iss c), rttl = 24 * Hour, rset_at = clock w\<rparr>"
      by (auto simp: SetCertificateStatus_kv split: if_splits)
    from True have "kv (cacheCertificates e iss (c # cs) w) key = kv ?w1 key" by simp
    with k(2) have "kv (cacheCertificates e iss (c # cs) w) key
        = Some \<lparr>rval = RStatus (revokedStatus iss c), rttl = 24 * Hour, rset_at = clock w\<rparr>"
      by (simp only:)
    with k(1) show ?thesis by auto
  next
    case False
    from Cons.IH [OF False] show ?thesis by auto
  qed
qed

lemma cacheCertificates_kv_all:
  "\<forall>k. \<not> redis_fails e k \<Longrightarrow> cert \<in> set certs \<Longrightarrow>
   \<exists>cert' \<in> set certs. Serial cert' = Serial cert \<and>
      kv (cacheCertificates e iss certs w) (''cert:'' @ Serial cert)
        = Some \<lparr>rval = RStatus (revokedStatus iss cert'), rttl = 24 * Hour, rset_at = clock w\<rparr>"
proof (induction certs arbitrary: w cert)
  case Nil
  then show ?case by simp
next
  case (Cons c cs)
  let ?w1 = "snd (SetCertificateStatus e (Serial c) (revokedStatus iss c) (24 * Hour) w)"
  let ?key = "''cert:'' @ Serial cert"
  show ?case
  proof (cases "\<exists>c' \<in> set cs. Serial c' = Serial cert")
    case True
    then obtain c' where c': "c' \<in> set cs" "Serial c' = Serial cert" by blast
    from Cons.IH [OF Cons.prems(1) c'(1), of ?w1] c'(2) show ?thesis by auto
  next
    case False
    with Cons.prems(2) have eq: "cert = c" by auto
    have "kv (cacheCertificates e iss cs ?w1) ?key = kv ?w1 ?key"
    proof (rule ccontr)
      assume "kv (cacheCertificates e iss cs ?w1) ?key \<noteq> kv ?w1 ?key"
      from cacheCertificates_kv_changed [OF this] False show False by auto
    qed
    with Cons.prems(1) eq show ?thesis
      by (simp add: SetCertificateStatus_kv)
  qed
qed

lemma flushBatch_kv:
  "kv (fst (flushBatch e iss certs (w, p))) =
     (if redis_configured w
      then kv (cacheCertificates e iss certs (snd (BatchInsertRevokedCertificates e certs w)))
      else kv w)"
  by (simp add: flushBatch_world Let_def)

section \<open>One source among the others\<close>

lemma ingestBody_cases:
  obtains (download) err where "http_download e url = Inl err"
      "ingestBody e url w = (Some ErrDownload, (w\<lparr>download_log := download_log w @ [url]\<rparr>, 0))"
  | (parse) data err where "http_download e url = Inr data" "x509_ParseCRL e data = Inl err"
      "ingestBody e url w = (Some ErrParse, (w\<lparr>download_log := download_log w @ [url]\<rparr>, 0))"
  | (parsed) data crl where "http_download e url = Inr data" "x509_ParseCRL e data = Inr crl"
proof (cases "http_download e url")
  case (Inl err)
  then show ?thesis using download ingestBody_fails(1) by blast
next
  case (Inr data)
  show ?thesis
  proof (cases "x509_ParseCRL e data")
    case (Inl err)
    with Inr show ?thesis using parse ingestBody_fails(2) by blast
  next
    case c: (Inr crl)
    with Inr show ?thesis using parsed by blast
  qed
qed

lemma ingestBody_clock [simp]: "clock (fst (snd (ingestBody e url w))) = clock w"
  by (cases e url w rule: ingestBody_cases) (simp_all add: ingestBody_result(3))

lemma ingestBody_redis_configured [simp]:
  "redis_configured (fst (snd (ingestBody e url w))) = redis_configured w"
  by (cases e url w rule: ingestBody_cases) (simp_all add: ingestBody_result(4))

lemma ingestBody_dom_mono: "dom (db w) \<subseteq> dom (db (fst (snd (ingestBody e url w))))"
  by (cases e url w rule: ingestBody_cases)
    (simp_all add: ingestBody_result(2) dom_apply_batches_mono)

lemma ProcessSingleCRL_cases:
  obtains (blocked) "lease_blocks e url w"
      "ProcessSingleCRL e url w = (None, w\<lparr>redis_calls := Suc (redis_calls w)\<rparr>)"
  | (entered) "\<not> lease_blocks e url w"
      "ProcessSingleCRL e url w =
         (fst (ingestBody e url (prologue_world (leasePrologue e url w))),
          leaseEpilogue e url (fst (snd (ingestBody e url (prologue_world (leasePrologue e url w))))))"
  using ProcessSingleCRL_blocked ProcessSingleCRL_entered by blast

lemma ProcessSingleCRL_clock [simp]: "clock (snd (ProcessSingleCRL e url w)) = clock w"
  by (cases e url w rule: ProcessSingleCRL_cases) (simp_all add: leasePrologue_frame)

lemma ProcessSingleCRL_dom_mono: "dom (db w) \<subseteq> dom (db (snd (ProcessSingleCRL e url w)))"
proof (cases e url w rule: ProcessSingleCRL_cases)
  case blocked
  then show ?thesis by simp
next
  case entered
  from ingestBody_dom_mono [of "prologue_world (leasePrologue e url w)" e url] entered(2)
  show ?thesis by (simp add: leasePrologue_frame)
qed

subsection \<open>The lease keys of the other sources\<close>

lemma client_Set_kv_other:
  "key' \<noteq> key \<Longrightarrow> kv (snd (client_Set e key v ttl w)) key' = kv w key'"
  by (simp add: client_Set_kv)

lemma SetCRLProcessing_kv_other:
  assumes "url \<noteq> u"
  shows "kv (snd (SetCRLProcessing e url b w)) (''crl_processing:'' @ u)
     = kv w (''crl_processing:'' @ u)"
proof -
  from assms have "''crl_processing:'' @ u \<noteq> ''crl_processing:'' @ url" by simp
  from client_Set_kv_other [OF this] show ?thesis
    unfolding SetCRLProcessing_def Let_def .
qed

lemma flushBatch_kv_lease:
  "kv (fst (flushBatch e iss b st)) (''crl_processing:'' @ u) = kv (fst st) (''crl_processing:'' @ u)"
proof (rule ccontr)
  obtain w p where st: "st = (w, p)" by (cases st)
  assume "kv (fst (flushBatch e iss b st)) (''crl_processing:'' @ u) \<noteq> kv (fst st) (''crl_processing:'' @ u)"
  with st have "kv (fst (flushBatch e iss b (w, p))) (''crl_processing:'' @ u) \<noteq> kv w (''crl_processing:'' @ u)"
    by simp
  then have "kv (cacheCertificates e iss b (snd (BatchInsertRevokedCertificates e b w))) (''crl_processing:'' @ u)
             \<noteq> kv (snd (BatchInsertRevokedCertificates e b w)) (''crl_processing:'' @ u)"
    unfolding flushBatch_kv by (simp split: if_splits)
  from cacheCertificates_kv_changed [OF this] show False by simp
qed

lemma flush_all_kv_lease:
  "kv (fst (flush_all e iss bs st)) (''crl_processing:'' @ u) = kv (fst st) (''crl_processing:'' @ u)"
proof (induction bs arbitrary: st)
  case Nil
  show ?case unfolding flush_all_simps ..
next
  case (Cons b bs)
  have "kv (fst (flush_all e iss (b # bs) st)) (''crl_processing:'' @ u)
      = kv (fst (flush_all e iss bs (flushBatch e iss b st))) (''crl_processing:'' @ u)"
    unfolding flush_all_simps ..
  also have "\<dots> = kv (fst (flushBatch e iss b st)) (''crl_processing:'' @ u)"
    by (rule Cons.IH)
  also have "\<dots> = kv (fst st) (''crl_processing:'' @ u)"
    by (rule flushBatch_kv_lease)
  finally show ?case .
qed

lemma ingestBody_kv_lease:
  "kv (fst (snd (ingestBody e url w))) (''crl_processing:'' @ u) = kv w (''crl_processing:'' @ u)"
proof (cases e url w rule: ingestBody_cases)
  case (download err)
  then show ?thesis by simp
next
  case (parse data err)
  then show ?thesis by simp
next
  case (parsed data crl)
  have "kv (fst (snd (ingestBody e url w))) (''crl_processing:'' @ u)
      = kv (fst (snd (InsertCRLInfo e \<lparr>URL = url, Issuer = extractIssuerName (tbs_Issuer crl),
                               NextUpdate = tbs_NextUpdate crl, LastProcessed = clock w,
                               CertCount = length (tbs_RevokedCertificates crl)\<rparr>
                 (w\<lparr>download_log := download_log w @ [url]\<rparr>)), 0::nat))
          (''crl_processing:'' @ u)"
    unfolding ingestBody_flushes [OF parsed] snd_conv by (rule flush_all_kv_lease)
  also have "\<dots> = kv (w\<lparr>download_log := download_log w @ [url]\<rparr>) (''crl_processing:'' @ u)"
    unfolding fst_conv InsertCRLInfo_frame ..
  also have "\<dots> = kv w (''crl_processing:'' @ u)"
    by simp
  finally show ?thesis .
qed

lemma leasePrologue_kv_other:
  assumes ne: "url \<noteq> u"
  shows "kv (prologue_world (leasePrologue e url w)) (''crl_processing:'' @ u)
     = kv w (''crl_processing:'' @ u)"
proof -
  obtain r w1 where i: "IsCRLProcessing e url w = (r, w1)"
    by (cases "IsCRLProcessing e url w")
  with IsCRLProcessing_world [of e url w] have w1: "w1 = w\<lparr>redis_calls := Suc (redis_calls w)\<rparr>"
    by simp
  then have k1: "kv w1 = kv w" by simp
  have p: "prologue_world (leasePrologue e url w) =
      (if redis_configured w
       then if r = Inr True then w1 else snd (SetCRLProcessing e url True w1)
       else w)"
    using i by (cases r) (simp_all add: leasePrologue_def)
  show ?thesis
    unfolding p using SetCRLProcessing_kv_other [OF ne, of e True w1] k1 by simp
qed

lemma ProcessSingleCRL_kv_other:
  assumes "url \<noteq> u"
  shows "kv (snd (ProcessSingleCRL e url w)) (''crl_processing:'' @ u) = kv w (''crl_processing:'' @ u)"
proof (cases e url w rule: ProcessSingleCRL_cases)
  case blocked
  then show ?thesis by simp
next
  case entered
  let ?w1 = "prologue_world (leasePrologue e url w)"
  let ?w2 = "fst (snd (ingestBody e url ?w1))"
  have "kv (leaseEpilogue e url ?w2) (''crl_processing:'' @ u) = kv ?w2 (''crl_processing:'' @ u)"
    using SetCRLProcessing_kv_other [OF assms, of e False ?w2] by (simp add: leaseEpilogue_def)
  also have "\<dots> = kv ?w1 (''crl_processing:'' @ u)"
    by (rule ingestBody_kv_lease)
  also have "\<dots> = kv w (''crl_processing:'' @ u)"
    by (rule leasePrologue_kv_other [OF assms])
  finally show ?thesis
    unfolding entered(2) snd_conv .
qed

lemma ProcessSingleCRL_lease_other:
  assumes "url \<noteq> u"
  shows "lease_held (snd (ProcessSingleCRL e url w)) u = lease_held w u"
  unfolding lease_held_def ProcessSingleCRL_kv_other [OF assms] ProcessSingleCRL_clock ..

subsection \<open>A source that is served, parses and persists\<close>

lemma in_concat_nth:
  assumes "x \<in> set (concat bs)"
  shows "\<exists>j < length bs. x \<in> set (bs ! j)"
proof -
  from assms obtain b where b: "b \<in> set bs" "x \<in> set b" by auto
  from b(1) obtain j where "j < length bs" "bs ! j = b"
    by (meson in_set_conv_nth)
  with b(2) show ?thesis by blast
qed

lemma ProcessSingleCRL_persists:
  assumes nb: "\<not> lease_blocks e url w"
    and dl: "http_download e url = Inr data" and pa: "x509_ParseCRL e data = Inr crl"
    and certs: "certs = map (mkRevokedCertificate (extractIssuerName (tbs_Issuer crl)))
                          (tbs_RevokedCertificates crl)"
    and ok: "\<forall>k b. b \<noteq> [] \<and> set b \<subseteq> set certs \<longrightarrow> tx_commits (tx_outcome_of e k b) (length b)"
  shows "Serial ` set certs \<subseteq> dom (db (snd (ProcessSingleCRL e url w)))"
proof
  fix s assume "s \<in> Serial ` set certs"
  then obtain cert where cert: "cert \<in> set certs" "s = Serial cert" by blast
  let ?bs = "chunks batchSize certs"
  let ?w1 = "prologue_world (leasePrologue e url w)"
  have b: "0 < batchSize" by (simp add: batchSize_def)
  from concat_chunks [OF b, of certs] cert(1) have "cert \<in> set (concat ?bs)" by simp
  from in_concat_nth [OF this] obtain j where j: "j < length ?bs" "cert \<in> set (?bs ! j)"
    by (elim exE conjE) (rule that)
  from j(1) have mem: "?bs ! j \<in> set ?bs" by simp
  with chunks_nonempty [OF b] have ne: "?bs ! j \<noteq> []" by blast
  have "set (?bs ! j) \<subseteq> set (concat ?bs)"
    using mem by auto
  with concat_chunks [OF b, of certs] have sub: "set (?bs ! j) \<subseteq> set certs" by simp
  from ok ne sub have c: "tx_commits (tx_outcome_of e (Suc (db_calls ?w1) + j) (?bs ! j)) (length (?bs ! j))"
    by blast
  have d: "db (snd (ProcessSingleCRL e url w)) = apply_batches e (clock ?w1) (Suc (db_calls ?w1)) ?bs (db ?w1)"
    using ingestBody_result(2) [OF dl pa, of ?w1]
    by (simp add: ProcessSingleCRL_entered [OF nb] certs)
  from apply_batches_committed [OF j(1) c] j(2) cert(2)
  show "s \<in> dom (db (snd (ProcessSingleCRL e url w)))"
    unfolding d by blast
qed

lemma foldl_ProcessSingleCRL_dom_mono:
  "dom (db w) \<subseteq> dom (db (foldl (\<lambda>w' url. snd (ProcessSingleCRL e url w')) w urls))"
proof (induction urls arbitrary: w)
  case Nil
  then show ?case by simp
next
  case (Cons u us)
  from ProcessSingleCRL_dom_mono [of w e u] Cons.IH [of "snd (ProcessSingleCRL e u w)"]
  show ?case by auto
qed

lemma foldl_ProcessSingleCRL_persists:
  assumes dl: "http_download e crlURL = Inr data" and pa: "x509_ParseCRL e data = Inr crl"
    and certs: "certs = map (mkRevokedCertificate (extractIssuerName (tbs_Issuer crl)))
                          (tbs_RevokedCertificates crl)"
    and ok: "\<forall>k b. b \<noteq> [] \<and> set b \<subseteq> set certs \<longrightarrow> tx_commits (tx_outcome_of e k b) (length b)"
  shows "crlURL \<in> set urls \<Longrightarrow> \<not> lease_held w crlURL \<Longrightarrow>
         Serial ` set certs \<subseteq> dom (db (foldl (\<lambda>w' url. snd (ProcessSingleCRL e url w')) w urls))"
proof (induction urls arbitrary: w)
  case Nil
  then show ?case by simp
next
  case (Cons u us)
  let ?w1 = "snd (ProcessSingleCRL e u w)"
  show ?case
  proof (cases "u = crlURL")
    case True
    from Cons.prems(2) have "\<not> lease_blocks e crlURL w" by (simp add: lease_blocks_def)
    from ProcessSingleCRL_persists [OF this dl pa certs ok] True
    have "Serial ` set certs \<subseteq> dom (db ?w1)" by simp
    also have "\<dots> \<subseteq> dom (db (foldl (\<lambda>w' url. snd (ProcessSingleCRL e url w')) ?w1 us))"
      by (rule foldl_ProcessSingleCRL_dom_mono)
    finally show ?thesis by simp
  next
    case False
    with Cons.prems(1) have "crlURL \<in> set us" by simp
    moreover from False Cons.prems(2) have "\<not> lease_held ?w1 crlURL"
      by (simp add: ProcessSingleCRL_lease_other)
    ultimately show ?thesis using Cons.IH [of ?w1] by simp
  qed
qed

section \<open>Serials as keys\<close>

lemma digit_char_inj: "a < 10 \<Longrightarrow> b < 10 \<Longrightarrow> digit_char a = digit_char b \<Longrightarrow> a = b"
proof -
  assume a: "a < 10" and b: "b < 10" and e: "digit_char a = digit_char b"
  have d: "distinct ''0123456789''" by simp
  from a b have "a < length ''0123456789''" "b < length ''0123456789''" by simp_all
  with d e show "a = b"
    unfolding digit_char_def by (simp only: nth_eq_iff_index_eq)
qed

lemma digit_char_not_minus: "d < 10 \<Longrightarrow> digit_char d \<noteq> CHR ''-''"
proof -
  assume "d < 10"
  then have "d < length ''0123456789''" by simp
  then have "''0123456789'' ! d \<in> set ''0123456789''" by (rule nth_mem)
  then show ?thesis unfolding digit_char_def by auto
qed

lemma decimal_nonempty: "decimal n \<noteq> []"
  by (subst decimal.simps) simp

lemma decimal_last: "last (decimal n) = digit_char (n mod 10)"
  by (subst decimal.simps) simp

lemma decimal_butlast: "butlast (decimal n) = (if n < 10 then [] else decimal (n div 10))"
  by (subst decimal.simps) simp

lemma decimal_inj: "decimal m = decimal n \<Longrightarrow> m = n"
proof (induction m arbitrary: n rule: less_induct)
  case (less m)
  from less.prems have "last (decimal m) = last (decimal n)" by simp
  then have "digit_char (m mod 10) = digit_char (n mod 10)" by (simp only: decimal_last)
  then have md: "m mod 10 = n mod 10" by (rule digit_char_inj [rotated 2]) simp_all
  from less.prems have "butlast (decimal m) = butlast (decimal n)" by simp
  then have bl: "(if m < 10 then [] else decimal (m div 10)) = (if n < 10 then [] else decimal (n div 10))"
    by (simp only: decimal_butlast)
  show ?case
  proof (cases "m < 10")
    case True
    with bl decimal_nonempty [of "n div 10"] have "n < 10" by (auto split: if_splits)
    with True md show ?thesis by simp
  next
    case False
    with bl decimal_nonempty [of "m div 10"] have n: "\<not> n < 10" by (auto split: if_splits)
    with False bl have "decimal (m div 10) = decimal (n div 10)" by simp
    moreover from False have "m div 10 < m" by simp
    ultimately have "m div 10 = n div 10" by (rule less.IH [rotated])
    with md show ?thesis by (metis div_mult_mod_eq)
  qed
qed

lemma decimal_no_minus: "CHR ''-'' \<notin> set (decimal n)"
proof (induction n rule: decimal.induct)
  case (1 n)
  show ?case
  proof (cases "n < 10")
    case True
    with digit_char_not_minus [of n] show ?thesis
      by (subst decimal.simps) auto
  next
    case False
    have "n mod 10 < 10" by simp
    with False 1 digit_char_not_minus [of "n mod 10"] show ?thesis
      by (subst decimal.simps) auto
  qed
qed

lemma formatSerial_inj: "formatSerial a = formatSerial b \<Longrightarrow> a = b"
proof -
  assume e: "formatSerial a = formatSerial b"
  have hd: "hd (decimal n) \<noteq> CHR ''-''" for n
    using decimal_no_minus [of n] decimal_nonempty [of n] by (cases "decimal n") auto
  show "a = b"
  proof (cases "a < 0")
    case True
    show ?thesis
    proof (cases "b < 0")
      case b: True
      with True e have "decimal (nat (- a)) = decimal (nat (- b))" by (simp add: formatSerial_def)
      then have "nat (- a) = nat (- b)" by (rule decimal_inj)
      with True b show ?thesis by simp
    next
      case b: False
      with True e have "CHR ''-'' # decimal (nat (- a)) = decimal (nat b)" by (simp add: formatSerial_def)
      then have "hd (decimal (nat b)) = CHR ''-''" by (metis list.sel(1))
      with hd show ?thesis by blast
    qed
  next
    case False
    show ?thesis
    proof (cases "b < 0")
      case b: True
      with False e have "decimal (nat a) = CHR ''-'' # decimal (nat (- b))" by (simp add: formatSerial_def)
      then have "hd (decimal (nat a)) = CHR ''-''" by (metis list.sel(1))
      with hd show ?thesis by blast
    next
      case b: False
      with False e have "decimal (nat a) = decimal (nat b)" by (simp add: formatSerial_def)
      then have "nat a = nat b" by (rule decimal_inj)
      with False b show ?thesis by simp
    qed
  qed
qed

lemma Serial_mkRevokedCertificate [simp]:
  "Serial (mkRevokedCertificate iss rc) = formatSerial (SerialNumber rc)"
  by (simp add: mkRevokedCertificate_def Let_def split: prod.splits)

lemma distinct_serials:
  "distinct (map SerialNumber es) \<Longrightarrow> distinct (map Serial (map (mkRevokedCertificate iss) es))"
proof -
  assume d: "distinct (map SerialNumber es)"
  have "map Serial (map (mkRevokedCertificate iss) es) = map formatSerial (map SerialNumber es)"
    by simp
  moreover have "inj_on formatSerial (set (map SerialNumber es))"
    by (rule inj_onI) (rule formatSerial_inj)
  ultimately show ?thesis using d by (simp only: distinct_map)
qed

section \<open>Rows after upserting a list\<close>

lemma upsert_all_untouched:
  "s \<notin> Serial ` set certs \<Longrightarrow> upsert_all now certs tbl s = tbl s"
  by (induction certs arbitrary: tbl) (auto simp: upsert_def)

lemma upsert_all_row:
  "distinct (map Serial certs) \<Longrightarrow> cert \<in> set certs \<Longrightarrow>
   upsert_all now certs tbl (Serial cert) = Some \<lparr>row_cert = cert, row_updated_at = now\<rparr>"
proof (induction certs arbitrary: tbl)
  case Nil
  then show ?case by simp
next
  case (Cons c cs)
  show ?case
  proof (cases "cert \<in> set cs")
    case True
    with Cons show ?thesis by simp
  next
    case False
    with Cons.prems have eq: "cert = c" and "Serial c \<notin> Serial ` set cs" by auto
    from upsert_all_untouched [OF this(2)] eq show ?thesis
      by (simp add: upsert_def)
  qed
qed

lemma card_serials: "distinct (map Serial certs) \<Longrightarrow> card (Serial ` set certs) = length certs"
  using distinct_card [of "map Serial certs"] by simp

lemma serial_entries_bound: "x \<in> set (serial_entries n) \<Longrightarrow> SerialNumber x \<le> int n"
  by (induction n) auto

lemma distinct_serial_entries: "distinct (map SerialNumber (serial_entries n))"
proof (induction n)
  case 0
  then show ?case by simp
next
  case (Suc n)
  have "int (Suc n) \<notin> SerialNumber ` set (serial_entries n)"
    using serial_entries_bound [of _ n] by fastforce
  with Suc show ?case by simp
qed

lemma last_serial_entry:
  "0 < n \<Longrightarrow> \<lparr>SerialNumber = int n, RevocationTime = 5, Extensions = []\<rparr> \<in> set (serial_entries n)"
  by (cases n) simp_all

section \<open>Serial normalisation on the query path\<close>

text \<open>
  C3. The claim: \<open>CheckCertificateStatus\<close> normalises its input to the canonical decimal
  form the parser's \<open>formatSerial\<close> produces, so that one serial compares equal whatever
  the caller's formatting. The comment of \<open>normalizeSerial\<close> promises the conversion of
  hexadecimal input to decimal; its body returns the input. Serial 255 is stored under
  \<open>255\<close>; the query \<open>FF\<close> for the same serial is looked up under \<open>FF\<close> and answered
  "not revoked", while the query \<open>255\<close> is answered "revoked".
\<close>

theorem normalizeSerial_hex_not_converted:
  "normalizeSerial ''FF'' = ''FF'' \<and> formatSerial 255 = ''255'' \<and>
   fst (CheckCertificateStatus env_ok ''FF''
          (snd (ProcessSingleCRL env_ok ''http://ca/a.crl'' world_nocache)))
     = Inr \<lparr>st_Serial = ''FF'', IsRevoked = False, st_RevocationDate = None,
            st_Reason = None, st_CertificateAuthority = None\<rparr> \<and>
   fst (CheckCertificateStatus env_ok ''255''
          (snd (ProcessSingleCRL env_ok ''http://ca/a.crl'' world_nocache)))
     = Inr \<lparr>st_Serial = ''255'', IsRevoked = True, st_RevocationDate = Some 5,
            st_Reason = Some ''Compromiso de clave'', st_CertificateAuthority = Some ''CA''\<rparr>"
  by (simp add: eval_defs)

section \<open>Expiry of cached statuses\<close>

text \<open>
  C8. The claim: every cache write of a revoked status has a strictly longer expiry than
  every cache write of a not-revoked status, on the ingestion path and on the query path.
  The query path does so (seven days against one); the ingestion path writes a revoked
  status with 24 hours, the very expiry the query path gives a not-revoked status.
\<close>

theorem ingestion_ttl_equals_not_revoked_ttl:
  "kv (snd (ProcessSingleCRL env_ok ''http://ca/a.crl'' world_cache)) ''cert:255''
     = Some \<lparr>rval = RStatus \<lparr>st_Serial = ''255'', IsRevoked = True, st_RevocationDate = Some 5,
                              st_Reason = Some [], st_CertificateAuthority = Some ''CA''\<rparr>,
             rttl = 24 * Hour, rset_at = 0\<rparr> \<and>
   kv (snd (CheckCertificateStatus env_ok ''77'' world_cache)) ''cert:77''
     = Some \<lparr>rval = RStatus \<lparr>st_Serial = ''77'', IsRevoked = False, st_RevocationDate = None,
                              st_Reason = None, st_CertificateAuthority = None\<rparr>,
             rttl = 24 * Hour, rset_at = 0\<rparr>"
  by (simp add: eval_defs)

section \<open>The processing lease\<close>

text \<open>
  A call that runs alone through the steps of the interleaved model returns what
  \<open>ProcessSingleCRL\<close> returns and leaves the state it leaves.
\<close>

lemma one_call_alone:
  "run_two e crlURL [True, True, True, True, True] (AtCheck, p2, w)
     = (Returned (fst (ProcessSingleCRL e crlURL w)), p2, snd (ProcessSingleCRL e crlURL w))"
proof (cases "redis_configured w")
  case False
  obtain err w2 p where b: "ingestBody e crlURL w = (err, (w2, p))"
    by (cases "ingestBody e crlURL w") auto
  from False b show ?thesis
    by (simp add: call_step_def ProcessSingleCRL_def leasePrologue_def)
next
  case True
  obtain r w1 where i: "IsCRLProcessing e crlURL w = (r, w1)"
    by (cases "IsCRLProcessing e crlURL w")
  show ?thesis
  proof (cases "r = Inr True")
    case t: True
    with True i show ?thesis
      by (simp add: call_step_def ProcessSingleCRL_def leasePrologue_def)
  next
    case f: False
    let ?w2 = "snd (SetCRLProcessing e crlURL True w1)"
    obtain err w3 p where b: "ingestBody e crlURL ?w2 = (err, (w3, p))"
      by (cases "ingestBody e crlURL ?w2") auto
    from f have "(\<exists>x. r = Inl x) \<or> r = Inr False"
      by (cases r) auto
    with True i b show ?thesis
      by (auto simp: call_step_def ProcessSingleCRL_def leasePrologue_def)
  qed
qed


text \<open>
  With a cache, the check and the set are two commands: when both calls check before
  either sets, both are in flight as well.
\<close>

lemma check_then_set_interleaved:
  "fst (run_two env_ok ''http://ca/a.crl'' [True, False, True, False]
          (AtCheck, AtCheck, world_cache)) = InFlight \<and>
   fst (snd (run_two env_ok ''http://ca/a.crl'' [True, False, True, False]
          (AtCheck, AtCheck, world_cache))) = InFlight"
  by (simp add: eval_defs)

subsection \<open>The lease while one call holds it\<close>

lemma lease_held_redis_calls [simp]: "lease_held (w\<lparr>redis_calls := n\<rparr>) u = lease_held w u"
  by (simp add: lease_held_def split: option.splits)

lemma IsCRLProcessing_answers:
  "\<not> redis_fails e (redis_calls w) \<Longrightarrow>
   IsCRLProcessing e url w = (Inr (lease_held w url), w\<lparr>redis_calls := Suc (redis_calls w)\<rparr>)"
  by (auto simp: IsCRLProcessing_def client_Get_def lease_held_def Let_def split: option.splits)

lemma SetCRLProcessing_acquires:
  "\<not> redis_fails e (redis_calls w) \<Longrightarrow>
   snd (SetCRLProcessing e url True w) =
     w\<lparr>redis_calls := Suc (redis_calls w),
       kv := (kv w)(''crl_processing:'' @ url \<mapsto>
                \<lparr>rval = RStr ''true'', rttl = 30 * Minute, rset_at = clock w\<rparr>)\<rparr>"
  by (simp add: SetCRLProcessing_def client_Set_def Let_def)

lemma lease_held_after_set:
  "\<not> redis_fails e (redis_calls w) \<Longrightarrow> lease_held (snd (SetCRLProcessing e url True w)) url"
  by (simp add: SetCRLProcessing_acquires lease_held_def Minute_def Second_def)

lemma ingestBody_lease_held:
  "lease_held (fst (snd (ingestBody e url w))) u = lease_held w u"
  unfolding lease_held_def ingestBody_kv_lease ingestBody_clock ..

lemma call_step_excl:
  assumes conf: "redis_configured w" and ok: "\<forall>k. \<not> redis_fails e k"
    and ab: "excl url a b w" and ba: "excl url b a w"
    and no: "\<not> (a = AtCheck \<and> b = AtAcquire)"
    and st: "call_step e url a w = (a', w')"
  shows "redis_configured w' \<and> excl url a' b w' \<and> excl url b a' w'"
proof (cases a)
  case AtCheck
  from ok have "\<not> redis_fails e (redis_calls w)" by blast
  note i = IsCRLProcessing_answers [OF this, of url]
  show ?thesis
  proof (cases "lease_held w url")
    case True
    with AtCheck conf i st have "a' = Returned None" "w' = w\<lparr>redis_calls := Suc (redis_calls w)\<rparr>"
      by (simp_all add: call_step_def)
    with conf ba show ?thesis
      by (auto simp: excl_def)
  next
    case False
    with AtCheck conf i st have r: "a' = AtAcquire" "w' = w\<lparr>redis_calls := Suc (redis_calls w)\<rparr>"
      by (simp_all add: call_step_def)
    from False ba have nb: "\<not> in_flight b" by (auto simp: excl_def)
    from no AtCheck have "b \<noteq> AtAcquire" by simp
    with nb have "b = AtCheck \<or> has_returned b" by (cases b) simp_all
    with r conf nb show ?thesis
      by (auto simp: excl_def)
  qed
next
  case AtAcquire
  from ok have nf: "\<not> redis_fails e (redis_calls w)" by blast
  from AtAcquire st have r: "a' = InFlight" "w' = snd (SetCRLProcessing e url True w)"
    by (simp_all add: call_step_def)
  from AtAcquire ab have b: "b = AtCheck \<or> has_returned b" by (simp add: excl_def)
  then have nb: "\<not> in_flight b" "b \<noteq> AtAcquire" by (cases b; simp)+
  from r conf lease_held_after_set [OF nf, of url] b nb show ?thesis
    by (simp add: excl_def)
next
  case InFlight
  obtain err w2 p where ib: "ingestBody e url w = (err, (w2, p))"
    by (cases "ingestBody e url w") auto
  with InFlight st have r: "a' = AtRelease err" "w' = w2"
    by (simp_all add: call_step_def)
  from ib have w2: "w2 = fst (snd (ingestBody e url w))" by simp
  from InFlight ab have b: "lease_held w url" "b = AtCheck \<or> has_returned b"
    by (simp_all add: excl_def)
  then have nb: "\<not> in_flight b" "b \<noteq> AtAcquire" by (cases b; simp)+
  from r w2 conf b nb show ?thesis
    by (simp add: excl_def ingestBody_lease_held)
next
  case (AtRelease err)
  with st have r: "a' = Returned err" "w' = leaseEpilogue e url w"
    by (simp_all add: call_step_def)
  from AtRelease ab have b: "b = AtCheck \<or> has_returned b" by (simp add: excl_def)
  then have nb: "\<not> in_flight b" "b \<noteq> AtAcquire" by (cases b; simp)+
  from r conf nb show ?thesis
    by (simp add: excl_def)
next
  case (Returned err)
  with st have "a' = a" "w' = w" by (simp_all add: call_step_def)
  with conf ab ba show ?thesis by simp
qed

lemma run_two_excl:
  assumes ok: "\<forall>k. \<not> redis_fails e k"
  shows "redis_configured w \<Longrightarrow> excl url p1 p2 w \<Longrightarrow> excl url p2 p1 w \<Longrightarrow>
         \<not> overlapping_check e url sched (p1, p2, w) \<Longrightarrow>
         \<not> (in_flight (fst (run_two e url sched (p1, p2, w))) \<and>
            in_flight (fst (snd (run_two e url sched (p1, p2, w)))))"
proof (induction sched arbitrary: p1 p2 w)
  case Nil
  then show ?case by (auto simp: excl_def) (cases p2; simp)+
next
  case (Cons first sched)
  show ?case
  proof (cases first)
    case True
    obtain p1' w' where st: "call_step e url p1 w = (p1', w')"
      by (cases "call_step e url p1 w")
    from Cons.prems(4) True have no: "\<not> (p1 = AtCheck \<and> p2 = AtAcquire)"
      and rest: "\<not> overlapping_check e url sched (p1', p2, w')"
      using st by simp_all
    from call_step_excl [OF Cons.prems(1) ok Cons.prems(2,3) no st]
    have "redis_configured w'" "excl url p1' p2 w'" "excl url p2 p1' w'" by simp_all
    from Cons.IH [OF this rest] True st show ?thesis by simp
  next
    case False
    obtain p2' w' where st: "call_step e url p2 w = (p2', w')"
      by (cases "call_step e url p2 w")
    from Cons.prems(4) False have no: "\<not> (p2 = AtCheck \<and> p1 = AtAcquire)"
      and rest: "\<not> overlapping_check e url sched (p1, p2', w')"
      using st by simp_all
    from call_step_excl [OF Cons.prems(1) ok Cons.prems(3,2) no st]
    have "redis_configured w'" "excl url p1 p2' w'" "excl url p2' p1 w'" by simp_all
    from Cons.IH [OF this rest] False st show ?thesis by simp
  qed
qed



text \<open>
  C10, as stated: when the lease check returns an error, \<open>ProcessSingleCRL\<close> goes on
  without holding any lease. After the check has failed the source still calls
  \<open>SetCRLProcessing(crlURL, true)\<close>; when that command succeeds the call goes on
  holding the lease.
\<close>

theorem lease_set_after_failed_check:
  "is_Entered (leasePrologue env_first_redis_fails ''http://ca/a.crl'' world_cache) \<and>
   lease_held (prologue_world (leasePrologue env_first_redis_fails ''http://ca/a.crl'' world_cache)) ''http://ca/a.crl''"
  by (simp add: eval_defs)

text \<open>
  C10, amended: without a cache client the call goes on from the unchanged state, no lease
  written. When the lease check errors the call never skips: it attempts to set the lease
  and goes on whether or not that succeeds, with the cache unchanged when the set fails
  and holding the lease when it succeeds. Whenever the prologue is passed, the call
  downloads, parses and persists, and its result is that of the body.
\<close>

theorem prologue_without_cache_or_after_failed_check:
  "(\<not> redis_configured w \<longrightarrow> leasePrologue e crlURL w = Entered w) \<and>
   (redis_configured w \<and> redis_fails e (redis_calls w) \<longrightarrow>
      leasePrologue e crlURL w
        = Entered (snd (SetCRLProcessing e crlURL True (w\<lparr>redis_calls := Suc (redis_calls w)\<rparr>))) \<and>
      (redis_fails e (Suc (redis_calls w)) \<longrightarrow>
         kv (prologue_world (leasePrologue e crlURL w)) = kv w) \<and>
      (\<not> redis_fails e (Suc (redis_calls w)) \<longrightarrow>
         lease_held (prologue_world (leasePrologue e crlURL w)) crlURL)) \<and>
   (is_Entered (leasePrologue e crlURL w) \<longrightarrow>
      ProcessSingleCRL e crlURL w
        = (fst (ingestBody e crlURL (prologue_world (leasePrologue e crlURL w))),
           leaseEpilogue e crlURL
             (fst (snd (ingestBody e crlURL (prologue_world (leasePrologue e crlURL w)))))))"
  by (auto simp: leasePrologue_def ProcessSingleCRL_def IsCRLProcessing_def client_Get_def
      SetCRLProcessing_def client_Set_def lease_held_def Let_def Minute_def Second_def
      split: prod.splits option.splits sum.splits)

theorem prologue_without_cache_or_after_failed_check_witness:
  "\<not> redis_configured world_nocache \<and>
   leasePrologue env_ok ''http://ca/a.crl'' world_nocache = Entered world_nocache \<and>
   redis_configured world_cache \<and>
   redis_fails env_first_redis_fails (redis_calls world_cache) \<and>
   \<not> redis_fails env_first_redis_fails (Suc (redis_calls world_cache)) \<and>
   lease_held (prologue_world (leasePrologue env_first_redis_fails ''http://ca/a.crl'' world_cache))
     ''http://ca/a.crl'' \<and>
   redis_fails env_redis_down (redis_calls world_cache) \<and>
   redis_fails env_redis_down (Suc (redis_calls world_cache)) \<and>
   kv (prologue_world (leasePrologue env_redis_down ''http://ca/a.crl'' world_cache)) = kv world_cache \<and>
   is_Entered (leasePrologue env_redis_down ''http://ca/a.crl'' world_cache) \<and>
   fst (ProcessSingleCRL env_redis_down ''http://ca/a.crl'' world_cache) = None"
proof -
  have a: "\<not> redis_configured world_nocache" "redis_configured world_cache"
    by (simp_all add: world_nocache_def world_cache_def)
  have b: "redis_fails env_first_redis_fails (redis_calls world_cache)"
    "\<not> redis_fails env_first_redis_fails (Suc (redis_calls world_cache))"
    "redis_fails env_redis_down (redis_calls world_cache)"
    "redis_fails env_redis_down (Suc (redis_calls world_cache))"
    by (simp_all add: env_first_redis_fails_def env_redis_down_def env_ok_def world_cache_def)
  have c: "is_Entered (leasePrologue env_redis_down ''http://ca/a.crl'' world_cache)"
    by (simp add: eval_defs)
  have d: "fst (ingestBody env_redis_down ''http://ca/a.crl''
      (prologue_world (leasePrologue env_redis_down ''http://ca/a.crl'' world_cache))) = None"
    by (simp add: eval_defs)
  note t1 = prologue_without_cache_or_after_failed_check [of world_nocache env_ok "''http://ca/a.crl''"]
  note t2 = prologue_without_cache_or_after_failed_check [of world_cache env_first_redis_fails "''http://ca/a.crl''"]
  note t3 = prologue_without_cache_or_after_failed_check [of world_cache env_redis_down "''http://ca/a.crl''"]
  from t1 a(1) have g1: "leasePrologue env_ok ''http://ca/a.crl'' world_nocache = Entered world_nocache"
    by blast
  from t2 a(2) b(1,2) have g2:
    "lease_held (prologue_world (leasePrologue env_first_redis_fails ''http://ca/a.crl'' world_cache))
       ''http://ca/a.crl''"
    by blast
  from t3 a(2) b(3,4) have g3:
    "kv (prologue_world (leasePrologue env_redis_down ''http://ca/a.crl'' world_cache)) = kv world_cache"
    by blast
  from t3 c have "ProcessSingleCRL env_redis_down ''http://ca/a.crl'' world_cache
        = (fst (ingestBody env_redis_down ''http://ca/a.crl''
                  (prologue_world (leasePrologue env_redis_down ''http://ca/a.crl'' world_cache))),
           leaseEpilogue env_redis_down ''http://ca/a.crl''
             (fst (snd (ingestBody env_redis_down ''http://ca/a.crl''
                  (prologue_world (leasePrologue env_redis_down ''http://ca/a.crl'' world_cache))))))"
    by blast
  with d have g4: "fst (ProcessSingleCRL env_redis_down ''http://ca/a.crl'' world_cache) = None"
    by simp
  from a b c g1 g2 g3 g4 show ?thesis
    by blast
qed

section \<open>Reason code and reason text\<close>

text \<open>
  C4. The claim: a recognised reason code is associated with the fixed text of the table,
  unrecognised reason data yields the code 0, and a query for a persisted record returns
  the table text of its code unless an override text was stored. The code looks the text
  up at ingestion but assigns it to a variable that shadows \<open>reasonText\<close>, so the
  record and the status cached at ingestion carry the empty text. For the entry of serial
  255 with the recognised code 1, whose table text is \<open>Compromiso de clave\<close>:
  \<^item> with a cache, the query is answered from the status cached at ingestion, with the
    empty text;
  \<^item> without a cache, the store path of the same query returns the table text.
  The code is also read as the first byte of the extension value: for the DER form of
  code 1 that byte is the tag 10, and the query reports the text of code 10. A first byte
  7, which the table does not have, is stored as the code 7.
\<close>

theorem reason_text_lost_at_ingestion:
  "RevocationReasons 1 = Some ''Compromiso de clave'' \<and>
   mkRevokedCertificate ''CA'' \<lparr>SerialNumber = 255, RevocationTime = 5, Extensions = [reason_ext 1]\<rparr>
     = \<lparr>Serial = ''255'', RevocationDate = 5, Reason = 1, ReasonText = [],
        CertificateAuthority = ''CA''\<rparr> \<and>
   fst (CheckCertificateStatus env_ok ''255''
          (snd (ProcessSingleCRL env_ok ''http://ca/a.crl'' world_cache)))
     = Inr \<lparr>st_Serial = ''255'', IsRevoked = True, st_RevocationDate = Some 5,
            st_Reason = Some [], st_CertificateAuthority = Some ''CA''\<rparr> \<and>
   fst (CheckCertificateStatus env_ok ''255''
          (snd (ProcessSingleCRL env_ok ''http://ca/a.crl'' world_nocache)))
     = Inr \<lparr>st_Serial = ''255'', IsRevoked = True, st_RevocationDate = Some 5,
            st_Reason = Some ''Compromiso de clave'', st_CertificateAuthority = Some ''CA''\<rparr> \<and>
   extractReason [reason_ext_der 1] = (10, []) \<and>
   fst (CheckCertificateStatus env_der ''255''
          (snd (ProcessSingleCRL env_der ''http://ca/a.crl'' world_nocache)))
     = Inr \<lparr>st_Serial = ''255'', IsRevoked = True, st_RevocationDate = Some 5,
            st_Reason = Some ''Compromiso de AA'', st_CertificateAuthority = Some ''CA''\<rparr> \<and>
   RevocationReasons 7 = None \<and> extractReason [reason_ext 7] = (7, [])"
  by (simp add: eval_defs)

section \<open>Batches\<close>

text \<open>
  C5, as stated: when every batch succeeds exactly \<open>n\<close> records are persisted. The table
  is keyed by serial and the insert replaces the row of a serial it finds: for a list of
  two entries with the serial 255 the one batch succeeds, \<open>processed\<close> is 2 and the store
  holds one row, that of the second entry.
\<close>

theorem two_entries_of_one_serial_make_one_row:
  "length (tbs_RevokedCertificates crl_dup) = 2 \<and>
   fst (ProcessSingleCRL env_dup ''http://ca/a.crl'' world_nocache) = None \<and>
   batch_log (snd (ProcessSingleCRL env_dup ''http://ca/a.crl'' world_nocache))
     = [[cert_dup 5, cert_dup 6]] \<and>
   fst (BatchInsertRevokedCertificates env_dup [cert_dup 5, cert_dup 6]
          (world_nocache\<lparr>db_calls := 1\<rparr>)) = None \<and>
   snd (snd (ingestBody env_dup ''http://ca/a.crl'' world_nocache)) = 2 \<and>
   dom (db (snd (ProcessSingleCRL env_dup ''http://ca/a.crl'' world_nocache))) = {''255''} \<and>
   db (snd (ProcessSingleCRL env_dup ''http://ca/a.crl'' world_nocache)) ''255''
     = Some \<lparr>row_cert = cert_dup 6, row_updated_at = 0\<rparr>"
  by (simp add: eval_defs)

text \<open>
  C5, amended. For a list of \<open>n\<close> decoded entries, a call that passes the lease prologue
  invokes the batch writer with \<open>n div 500\<close> batches of 500 followed by one batch of
  \<open>n mod 500\<close> when that is not zero, which together are the certificates of the list
  in order. When every transaction commits, \<open>processed\<close> ends as \<open>n\<close>, the store has
  a row for exactly the serials it had and those of the list, and every other row is as
  it was. When the serial numbers of the list are distinct, each certificate of the list
  is the row of its serial, the list has \<open>n\<close> serials, and a store that was empty holds
  exactly \<open>n\<close> rows. For the list of 1203 entries the batches have 500, 500 and 203
  certificates and the store holds 1203 rows.
\<close>

theorem batches_of_500_then_remainder:
  assumes "http_download e crlURL = Inr crlData" and "x509_ParseCRL e crlData = Inr crl"
    and "\<not> lease_blocks e crlURL w"
  shows "\<exists>bs. batch_log (snd (ProcessSingleCRL e crlURL w)) = batch_log w @ bs \<and>
          concat bs = map (mkRevokedCertificate (extractIssuerName (tbs_Issuer crl)))
                        (tbs_RevokedCertificates crl) \<and>
          map length bs =
            replicate (length (tbs_RevokedCertificates crl) div 500) 500 @
            (if length (tbs_RevokedCertificates crl) mod 500 = 0 then []
             else [length (tbs_RevokedCertificates crl) mod 500]) \<and>
          ((\<forall>k b. tx_commits (tx_outcome_of e k b) (length b)) \<longrightarrow>
             snd (snd (ingestBody e crlURL (prologue_world (leasePrologue e crlURL w))))
               = length (tbs_RevokedCertificates crl) \<and>
             db (snd (ProcessSingleCRL e crlURL w))
               = upsert_all (clock w)
                   (map (mkRevokedCertificate (extractIssuerName (tbs_Issuer crl)))
                      (tbs_RevokedCertificates crl)) (db w) \<and>
             dom (db (snd (ProcessSingleCRL e crlURL w)))
               = dom (db w) \<union> Serial ` set (concat bs) \<and>
             (\<forall>s. s \<notin> Serial ` set (concat bs) \<longrightarrow>
                db (snd (ProcessSingleCRL e crlURL w)) s = db w s) \<and>
             (distinct (map SerialNumber (tbs_RevokedCertificates crl)) \<longrightarrow>
                (\<forall>cert \<in> set (concat bs).
                   db (snd (ProcessSingleCRL e crlURL w)) (Serial cert)
                     = Some \<lparr>row_cert = cert, row_updated_at = clock w\<rparr>) \<and>
                card (Serial ` set (concat bs)) = length (tbs_RevokedCertificates crl) \<and>
                (db w = Map.empty \<longrightarrow>
                   card (dom (db (snd (ProcessSingleCRL e crlURL w))))
                     = length (tbs_RevokedCertificates crl))))"
proof -
  let ?w1 = "prologue_world (leasePrologue e crlURL w)"
  let ?w' = "snd (ProcessSingleCRL e crlURL w)"
  let ?certs = "map (mkRevokedCertificate (extractIssuerName (tbs_Issuer crl)))
                  (tbs_RevokedCertificates crl)"
  let ?bs = "chunks batchSize ?certs"
  have b: "0 < batchSize" by (simp add: batchSize_def)
  note r = ingestBody_result [OF assms(1,2), of ?w1]
  have p: "?w' = leaseEpilogue e crlURL (fst (snd (ingestBody e crlURL ?w1)))"
    by (simp add: ProcessSingleCRL_entered [OF assms(3)])
  have 1: "batch_log ?w' = batch_log w @ ?bs"
    by (simp add: p r(1) leasePrologue_frame)
  have 2: "concat ?bs = ?certs"
    using b by (rule concat_chunks)
  have 3: "map length ?bs = replicate (length (tbs_RevokedCertificates crl) div 500) 500 @
            (if length (tbs_RevokedCertificates crl) mod 500 = 0 then []
             else [length (tbs_RevokedCertificates crl) mod 500])"
    using length_chunks [OF b, of ?certs] by (simp add: batchSize_def)
  have 4: "snd (snd (ingestBody e crlURL ?w1)) = length (tbs_RevokedCertificates crl) \<and>
      db ?w' = upsert_all (clock w) ?certs (db w) \<and>
      dom (db ?w') = dom (db w) \<union> Serial ` set (concat ?bs) \<and>
      (\<forall>s. s \<notin> Serial ` set (concat ?bs) \<longrightarrow> db ?w' s = db w s) \<and>
      (distinct (map SerialNumber (tbs_RevokedCertificates crl)) \<longrightarrow>
         (\<forall>cert \<in> set (concat ?bs).
            db ?w' (Serial cert) = Some \<lparr>row_cert = cert, row_updated_at = clock w\<rparr>) \<and>
         card (Serial ` set (concat ?bs)) = length (tbs_RevokedCertificates crl) \<and>
         (db w = Map.empty \<longrightarrow> card (dom (db ?w')) = length (tbs_RevokedCertificates crl)))"
    if c: "\<forall>k b. tx_commits (tx_outcome_of e k b) (length b)"
  proof -
    have n: "snd (snd (ingestBody e crlURL ?w1)) = length (tbs_RevokedCertificates crl)"
      by (rule r(5) [OF c])
    have d: "db ?w' = upsert_all (clock w) ?certs (db w)"
      using c by (simp add: p r(2) leasePrologue_frame apply_batches_all_commit 2)
    have du: "dom (upsert_all now cs tbl) = dom tbl \<union> Serial ` set cs" for now cs tbl
      by (induction cs arbitrary: tbl) (auto simp: upsert_def)
    have dm: "dom (db ?w') = dom (db w) \<union> Serial ` set (concat ?bs)"
      unfolding d 2 by (rule du)
    have un: "\<forall>s. s \<notin> Serial ` set (concat ?bs) \<longrightarrow> db ?w' s = db w s"
      unfolding d 2 using upsert_all_untouched by blast
    have di: "(\<forall>cert \<in> set (concat ?bs).
            db ?w' (Serial cert) = Some \<lparr>row_cert = cert, row_updated_at = clock w\<rparr>) \<and>
         card (Serial ` set (concat ?bs)) = length (tbs_RevokedCertificates crl) \<and>
         (db w = Map.empty \<longrightarrow> card (dom (db ?w')) = length (tbs_RevokedCertificates crl))"
      if ds: "distinct (map SerialNumber (tbs_RevokedCertificates crl))"
    proof -
      from distinct_serials [OF ds] have dc: "distinct (map Serial ?certs)" .
      have rows: "\<forall>cert \<in> set (concat ?bs).
            db ?w' (Serial cert) = Some \<lparr>row_cert = cert, row_updated_at = clock w\<rparr>"
        unfolding d 2 using upsert_all_row [OF dc] by blast
      have cd: "card (Serial ` set (concat ?bs)) = length (tbs_RevokedCertificates crl)"
        unfolding 2 using card_serials [OF dc] by simp
      have "card (dom (db ?w')) = length (tbs_RevokedCertificates crl)" if "db w = Map.empty"
        using that cd by (simp add: dm)
      with rows cd show ?thesis by blast
    qed
    from n d dm un di show ?thesis by blast
  qed
  from 1 2 3 4 show ?thesis by blast
qed

theorem batches_of_500_then_remainder_witness:
  "http_download env_1203 ''http://ca/a.crl'' = Inr [] \<and>
   x509_ParseCRL env_1203 [] = Inr crl_1203 \<and>
   \<not> lease_blocks env_1203 ''http://ca/a.crl'' world_cache \<and>
   (\<forall>k b. tx_commits (tx_outcome_of env_1203 k b) (length b)) \<and>
   distinct (map SerialNumber (tbs_RevokedCertificates crl_1203)) \<and>
   db world_cache = Map.empty \<and>
   (\<exists>bs. batch_log (snd (ProcessSingleCRL env_1203 ''http://ca/a.crl'' world_cache)) = bs \<and>
      concat bs = map (mkRevokedCertificate ''CA'') (tbs_RevokedCertificates crl_1203) \<and>
      map length bs = [500, 500, 203]) \<and>
   snd (snd (ingestBody env_1203 ''http://ca/a.crl''
          (prologue_world (leasePrologue env_1203 ''http://ca/a.crl'' world_cache)))) = 1203 \<and>
   card (dom (db (snd (ProcessSingleCRL env_1203 ''http://ca/a.crl'' world_cache)))) = 1203 \<and>
   db (snd (ProcessSingleCRL env_1203 ''http://ca/a.crl'' world_cache)) ''1203''
     = Some \<lparr>row_cert = \<lparr>Serial = ''1203'', RevocationDate = 5, Reason = 0, ReasonText = [],
                           CertificateAuthority = ''CA''\<rparr>,
             row_updated_at = 0\<rparr>"
proof -
  let ?u = "''http://ca/a.crl''"
  let ?w' = "snd (ProcessSingleCRL env_1203 ?u world_cache)"
  let ?last = "\<lparr>Serial = ''1203'', RevocationDate = 5, Reason = 0, ReasonText = [],
                 CertificateAuthority = ''CA''\<rparr>"
  have a: "http_download env_1203 ?u = Inr []"
    "x509_ParseCRL env_1203 [] = Inr crl_1203"
    by (simp_all add: env_1203_def env_ok_def)
  have l: "\<not> lease_blocks env_1203 ?u world_cache"
    by (simp add: lease_blocks_def lease_held_def world_cache_def)
  have c: "\<forall>k b. tx_commits (tx_outcome_of env_1203 k b) (length b)"
    by (simp add: env_1203_def env_ok_def)
  have n: "length (tbs_RevokedCertificates crl_1203) = 1203"
    "extractIssuerName (tbs_Issuer crl_1203) = ''CA''" "batch_log world_cache = []"
    "clock world_cache = 0"
    by (simp_all add: crl_1203_def extractIssuerName_def issuer_ca_def world_cache_def)
  have e: "db world_cache = Map.empty"
    by (simp add: world_cache_def)
  have ds: "distinct (map SerialNumber (tbs_RevokedCertificates crl_1203))"
    by (simp add: crl_1203_def distinct_serial_entries)
  have r: "replicate (1203 div 500) (500::nat) @ (if (1203::nat) mod 500 = 0 then [] else [1203 mod 500])
      = [500, 500, 203]"
  proof -
    have "(1203::nat) div 500 = 2" "(1203::nat) mod 500 = 203" by simp_all
    moreover have "replicate 2 (500::nat) = [500, 500]" by (simp add: numeral_2_eq_2)
    ultimately show ?thesis by simp
  qed
  have "\<lparr>SerialNumber = int 1203, RevocationTime = 5, Extensions = []\<rparr> \<in> set (serial_entries 1203)"
    by (rule last_serial_entry) simp
  then have "mkRevokedCertificate ''CA'' \<lparr>SerialNumber = int 1203, RevocationTime = 5, Extensions = []\<rparr>
      \<in> set (map (mkRevokedCertificate ''CA'') (tbs_RevokedCertificates crl_1203))"
    by (simp add: crl_1203_def)
  moreover have "mkRevokedCertificate ''CA'' \<lparr>SerialNumber = int 1203, RevocationTime = 5, Extensions = []\<rparr>
      = ?last"
    by (simp add: mkRevokedCertificate_def extractReason_def formatSerial_def decimal.simps
        digit_char_def)
  ultimately have m: "?last \<in> set (map (mkRevokedCertificate ''CA'') (tbs_RevokedCertificates crl_1203))"
    by (simp only:)
  note t = batches_of_500_then_remainder [OF a l, unfolded n r append_Nil]
  from t obtain bs where
    bs: "batch_log ?w' = bs"
      "concat bs = map (mkRevokedCertificate ''CA'') (tbs_RevokedCertificates crl_1203)"
      "map length bs = [500, 500, 203]"
    and rest: "(\<forall>k b. tx_commits (tx_outcome_of env_1203 k b) (length b)) \<longrightarrow>
             snd (snd (ingestBody env_1203 ?u (prologue_world (leasePrologue env_1203 ?u world_cache))))
               = 1203 \<and>
             db ?w' = upsert_all 0 (map (mkRevokedCertificate ''CA'') (tbs_RevokedCertificates crl_1203))
                        (db world_cache) \<and>
             dom (db ?w') = dom (db world_cache) \<union> Serial ` set (concat bs) \<and>
             (\<forall>s. s \<notin> Serial ` set (concat bs) \<longrightarrow> db ?w' s = db world_cache s) \<and>
             (distinct (map SerialNumber (tbs_RevokedCertificates crl_1203)) \<longrightarrow>
                (\<forall>cert \<in> set (concat bs).
                   db ?w' (Serial cert) = Some \<lparr>row_cert = cert, row_updated_at = 0\<rparr>) \<and>
                card (Serial ` set (concat bs)) = 1203 \<and>
                (db world_cache = Map.empty \<longrightarrow> card (dom (db ?w')) = 1203))"
    by (elim exE conjE) (rule that)
  from rest c have 4: "snd (snd (ingestBody env_1203 ?u
          (prologue_world (leasePrologue env_1203 ?u world_cache)))) = 1203"
    and di: "distinct (map SerialNumber (tbs_RevokedCertificates crl_1203)) \<longrightarrow>
                (\<forall>cert \<in> set (concat bs).
                   db ?w' (Serial cert) = Some \<lparr>row_cert = cert, row_updated_at = 0\<rparr>) \<and>
                card (Serial ` set (concat bs)) = 1203 \<and>
                (db world_cache = Map.empty \<longrightarrow> card (dom (db ?w')) = 1203)"
    by blast+
  from di ds e have 6: "card (dom (db ?w')) = 1203"
    and rows: "\<forall>cert \<in> set (concat bs).
                   db ?w' (Serial cert) = Some \<lparr>row_cert = cert, row_updated_at = 0\<rparr>"
    by blast+
  from m bs(2) have "?last \<in> set (concat bs)" by (simp only:)
  with rows have "db ?w' (Serial ?last) = Some \<lparr>row_cert = ?last, row_updated_at = 0\<rparr>"
    by (rule bspec)
  then have 7: "db ?w' ''1203'' = Some \<lparr>row_cert = ?last, row_updated_at = 0\<rparr>"
    by simp
  have 5: "\<exists>bs. batch_log ?w' = bs \<and>
      concat bs = map (mkRevokedCertificate ''CA'') (tbs_RevokedCertificates crl_1203) \<and>
      map length bs = [500, 500, 203]"
    using bs by (intro exI [of _ bs] conjI)
  from a l c ds e 5 4 6 7 show ?thesis
    by (intro conjI)
qed

text \<open>
  C6. A call of the batch writer leaves the table either with all certificates of the
  batch upserted, when it returns no error, or as it was. In an ingestion the batch writer
  is called on every batch whatever the outcomes of the others, and the table ends as
  \<open>apply_batches\<close> says: each batch applied whole exactly when its own transaction
  commits; in particular the certificates of every committed batch are in the store at
  the end. For the list of 1203 entries with the second batch failing, the third batch
  is written and its serials are in the store.
\<close>

theorem batch_is_atomic_and_independent:
  assumes "http_download e crlURL = Inr crlData" and "x509_ParseCRL e crlData = Inr crl"
    and "bs = chunks batchSize (map (mkRevokedCertificate (extractIssuerName (tbs_Issuer crl)))
                        (tbs_RevokedCertificates crl))"
  shows "db (snd (BatchInsertRevokedCertificates e certs w)) =
           (if fst (BatchInsertRevokedCertificates e certs w) = None
            then upsert_all (clock w) certs (db w) else db w) \<and>
         batch_log (fst (snd (ingestBody e crlURL w))) = batch_log w @ bs \<and>
         db (fst (snd (ingestBody e crlURL w)))
           = apply_batches e (clock w) (Suc (db_calls w)) bs (db w) \<and>
         (\<forall>j < length bs.
            tx_commits (tx_outcome_of e (Suc (db_calls w) + j) (bs ! j)) (length (bs ! j)) \<longrightarrow>
            Serial ` set (bs ! j) \<subseteq> dom (db (fst (snd (ingestBody e crlURL w)))))"
proof -
  have 1: "db (snd (BatchInsertRevokedCertificates e certs w)) =
           (if fst (BatchInsertRevokedCertificates e certs w) = None
            then upsert_all (clock w) certs (db w) else db w)"
  proof (cases "certs = []")
    case True
    then show ?thesis by (simp add: BatchInsert_empty)
  next
    case False
    show ?thesis
    proof (cases "tx_commits (tx_outcome_of e (db_calls w) certs) (length certs)")
      case True
      from BatchInsert_commits [OF False True] show ?thesis by simp
    next
      case c: False
      from BatchInsert_aborts [OF False c] show ?thesis by auto
    qed
  qed
  note r = ingestBody_result [OF assms(1,2), of w, folded assms(3)]
  have 4: "\<forall>j < length bs.
           tx_commits (tx_outcome_of e (Suc (db_calls w) + j) (bs ! j)) (length (bs ! j)) \<longrightarrow>
           Serial ` set (bs ! j) \<subseteq> dom (db (fst (snd (ingestBody e crlURL w))))"
    unfolding r(2) using apply_batches_committed by blast
  from 1 r(1) r(2) 4 show ?thesis by (intro conjI)
qed

theorem batch_is_atomic_and_independent_witness:
  "http_download env_1203_second_fails ''http://ca/a.crl'' = Inr [] \<and>
   x509_ParseCRL env_1203_second_fails [] = Inr crl_1203 \<and>
   map length (chunks batchSize (map (mkRevokedCertificate ''CA'') (serial_entries 1203)))
     = [500, 500, 203] \<and>
   batch_log (fst (snd (ingestBody env_1203_second_fails ''http://ca/a.crl'' world_cache)))
     = chunks batchSize (map (mkRevokedCertificate ''CA'') (serial_entries 1203)) \<and>
   \<not> tx_commits (tx_outcome_of env_1203_second_fails 2
         (chunks batchSize (map (mkRevokedCertificate ''CA'') (serial_entries 1203)) ! 1)) 500 \<and>
   tx_commits (tx_outcome_of env_1203_second_fails 3
         (chunks batchSize (map (mkRevokedCertificate ''CA'') (serial_entries 1203)) ! 2)) 203 \<and>
   Serial ` set (chunks batchSize (map (mkRevokedCertificate ''CA'') (serial_entries 1203)) ! 2)
     \<subseteq> dom (db (fst (snd (ingestBody env_1203_second_fails ''http://ca/a.crl'' world_cache))))"
proof -
  let ?e = env_1203_second_fails
  let ?bs = "chunks batchSize (map (mkRevokedCertificate ''CA'') (serial_entries 1203))"
  have a: "http_download ?e ''http://ca/a.crl'' = Inr []" "x509_ParseCRL ?e [] = Inr crl_1203"
    by (simp_all add: env_1203_second_fails_def env_1203_def env_ok_def)
  have n: "extractIssuerName (tbs_Issuer crl_1203) = ''CA''"
    "tbs_RevokedCertificates crl_1203 = serial_entries 1203"
    by (simp_all add: crl_1203_def extractIssuerName_def issuer_ca_def)
  have w: "batch_log world_cache = []" "db_calls world_cache = 0"
    by (simp_all add: world_cache_def)
  have bs: "?bs = chunks batchSize (map (mkRevokedCertificate (extractIssuerName (tbs_Issuer crl_1203)))
                        (tbs_RevokedCertificates crl_1203))"
    by (simp only: n)
  have ar: "(1203::nat) div 500 = 2" "(1203::nat) mod 500 = 203" by simp_all
  have "0 < batchSize" by (simp add: batchSize_def)
  from length_chunks [OF this, of "map (mkRevokedCertificate ''CA'') (serial_entries 1203)"]
  have len: "map length ?bs = [500, 500, 203]"
    by (simp add: batchSize_def ar numeral_2_eq_2)
  then have l3: "length ?bs = 3"
    using length_map [of length ?bs] by simp
  from len have l2: "length (?bs ! 2) = 203" "length (?bs ! 1) = 500"
    using nth_map [of 2 ?bs length] nth_map [of 1 ?bs length] l3 by simp_all
  have c1: "\<not> tx_commits (tx_outcome_of ?e 2 (?bs ! 1)) 500"
    by (simp add: env_1203_second_fails_def)
  have c2: "tx_commits (tx_outcome_of ?e 3 (?bs ! 2)) 203"
    by (simp add: env_1203_second_fails_def)
  have k3: "Suc (db_calls world_cache) + 2 = 3"
    by (simp add: w)
  note t = batch_is_atomic_and_independent [OF a bs, of "[]" world_cache]
  from t have log: "batch_log (fst (snd (ingestBody ?e ''http://ca/a.crl'' world_cache))) = ?bs"
    by (simp add: w)
  from t have "\<forall>j < length ?bs.
            tx_commits (tx_outcome_of ?e (Suc (db_calls world_cache) + j) (?bs ! j)) (length (?bs ! j)) \<longrightarrow>
            Serial ` set (?bs ! j) \<subseteq> dom (db (fst (snd (ingestBody ?e ''http://ca/a.crl'' world_cache))))"
    by (elim conjE)
  then have "tx_commits (tx_outcome_of ?e (Suc (db_calls world_cache) + 2) (?bs ! 2)) (length (?bs ! 2)) \<longrightarrow>
            Serial ` set (?bs ! 2) \<subseteq> dom (db (fst (snd (ingestBody ?e ''http://ca/a.crl'' world_cache))))"
    using l3 by (elim allE [of _ 2]) simp
  from this c2 have d: "Serial ` set (?bs ! 2) \<subseteq> dom (db (fst (snd (ingestBody ?e ''http://ca/a.crl'' world_cache))))"
    unfolding k3 l2 by (rule mp)
  from a len log c1 c2 d show ?thesis by (intro conjI)
qed

section \<open>Cache writes and persistence\<close>

text \<open>
  C2, as stated: a status is cached only when the batch of its record was persisted, so
  every cached revoked status has its record in the store. When the commit of the batch
  fails the cache writes are made all the same: the cache then says "revoked" for serial
  255 and the store has no row for it.
\<close>

theorem cached_although_batch_not_persisted:
  "fst (ProcessSingleCRL env_commit_fails ''http://ca/a.crl'' world_cache) = None \<and>
   kv (snd (ProcessSingleCRL env_commit_fails ''http://ca/a.crl'' world_cache)) ''cert:255''
     = Some \<lparr>rval = RStatus \<lparr>st_Serial = ''255'', IsRevoked = True, st_RevocationDate = Some 5,
                              st_Reason = Some [], st_CertificateAuthority = Some ''CA''\<rparr>,
             rttl = 24 * Hour, rset_at = 0\<rparr> \<and>
   db (snd (ProcessSingleCRL env_commit_fails ''http://ca/a.crl'' world_cache)) ''255'' = None"
  by (simp add: eval_defs)

text \<open>
  C2, amended: a flush writes to the cache nothing but revoked statuses of certificates
  of its batch, each with 24 hours; with a cache configured and answering it writes one
  for every certificate of the batch, whether the batch was persisted or not; and when the
  batch writer returned no error, every certificate of the batch has its row in the store.
\<close>

theorem flush_caches_whole_batch:
  "(\<forall>key. kv (fst (flushBatch e iss certs (w, p))) key \<noteq> kv w key \<longrightarrow>
      (\<exists>cert \<in> set certs. key = ''cert:'' @ Serial cert \<and>
         kv (fst (flushBatch e iss certs (w, p))) key
           = Some \<lparr>rval = RStatus (revokedStatus iss cert), rttl = 24 * Hour, rset_at = clock w\<rparr>)) \<and>
   (redis_configured w \<and> (\<forall>k. \<not> redis_fails e k) \<longrightarrow>
      (\<forall>cert \<in> set certs. \<exists>cert' \<in> set certs. Serial cert' = Serial cert \<and>
         kv (fst (flushBatch e iss certs (w, p))) (''cert:'' @ Serial cert)
           = Some \<lparr>rval = RStatus (revokedStatus iss cert'), rttl = 24 * Hour, rset_at = clock w\<rparr>)) \<and>
   (fst (BatchInsertRevokedCertificates e certs w) = None \<longrightarrow>
      (\<forall>cert \<in> set certs. Serial cert \<in> dom (db (fst (flushBatch e iss certs (w, p))))))"
proof (intro conjI allI impI ballI)
  fix key
  assume "kv (fst (flushBatch e iss certs (w, p))) key \<noteq> kv w key"
  then have r: "redis_configured w"
    and "kv (cacheCertificates e iss certs (snd (BatchInsertRevokedCertificates e certs w))) key
           \<noteq> kv (snd (BatchInsertRevokedCertificates e certs w)) key"
    by (auto simp: flushBatch_kv split: if_splits)
  from cacheCertificates_kv_changed [OF this(2)] r
  show "\<exists>cert \<in> set certs. key = ''cert:'' @ Serial cert \<and>
         kv (fst (flushBatch e iss certs (w, p))) key
           = Some \<lparr>rval = RStatus (revokedStatus iss cert), rttl = 24 * Hour, rset_at = clock w\<rparr>"
    by (simp add: flushBatch_kv)
next
  fix cert
  assume h: "redis_configured w \<and> (\<forall>k. \<not> redis_fails e k)" and c: "cert \<in> set certs"
  from h have "\<forall>k. \<not> redis_fails e k" by blast
  from cacheCertificates_kv_all [OF this c, of iss "snd (BatchInsertRevokedCertificates e certs w)"] h
  show "\<exists>cert' \<in> set certs. Serial cert' = Serial cert \<and>
         kv (fst (flushBatch e iss certs (w, p))) (''cert:'' @ Serial cert)
           = Some \<lparr>rval = RStatus (revokedStatus iss cert'), rttl = 24 * Hour, rset_at = clock w\<rparr>"
    by (simp add: flushBatch_kv)
next
  fix cert
  assume ok: "fst (BatchInsertRevokedCertificates e certs w) = None" and c: "cert \<in> set certs"
  then have ne: "certs \<noteq> []" by auto
  have "tx_commits (tx_outcome_of e (db_calls w) certs) (length certs)"
  proof (rule ccontr)
    assume "\<not> tx_commits (tx_outcome_of e (db_calls w) certs) (length certs)"
    from BatchInsert_aborts(1) [OF ne this] ok show False by simp
  qed
  from BatchInsert_commits(2) [OF ne this] c
  show "Serial cert \<in> dom (db (fst (flushBatch e iss certs (w, p))))"
    by (simp add: dom_upsert_all)
qed

theorem flush_caches_whole_batch_witness:
  "redis_configured world_cache \<and> (\<forall>k. \<not> redis_fails env_commit_fails k) \<and>
   fst (BatchInsertRevokedCertificates env_commit_fails [cert_255] world_cache) = Some ErrTxCommit \<and>
   kv (fst (flushBatch env_commit_fails ''CA'' [cert_255] (world_cache, 0))) ''cert:255''
     = Some \<lparr>rval = RStatus (revokedStatus ''CA'' cert_255), rttl = 24 * Hour, rset_at = 0\<rparr> \<and>
   fst (BatchInsertRevokedCertificates env_ok [cert_255] world_cache) = None \<and>
   ''255'' \<in> dom (db (fst (flushBatch env_ok ''CA'' [cert_255] (world_cache, 0))))"
proof -
  have a: "redis_configured world_cache" "\<forall>k. \<not> redis_fails env_commit_fails k"
    "clock world_cache = 0" "Serial cert_255 = ''255''"
    by (simp_all add: world_cache_def env_commit_fails_def env_ok_def cert_255_def)
  have b: "fst (BatchInsertRevokedCertificates env_commit_fails [cert_255] world_cache) = Some ErrTxCommit"
    "fst (BatchInsertRevokedCertificates env_ok [cert_255] world_cache) = None"
    by (simp_all add: eval_defs)
  note t1 = flush_caches_whole_batch [of env_commit_fails "''CA''" "[cert_255]" world_cache 0]
  note t2 = flush_caches_whole_batch [of env_ok "''CA''" "[cert_255]" world_cache 0]
  from t1 a(1,2) have "\<forall>cert \<in> set [cert_255]. \<exists>cert' \<in> set [cert_255]. Serial cert' = Serial cert \<and>
         kv (fst (flushBatch env_commit_fails ''CA'' [cert_255] (world_cache, 0))) (''cert:'' @ Serial cert)
           = Some \<lparr>rval = RStatus (revokedStatus ''CA'' cert'), rttl = 24 * Hour, rset_at = clock world_cache\<rparr>"
    by blast
  then have c: "kv (fst (flushBatch env_commit_fails ''CA'' [cert_255] (world_cache, 0))) ''cert:255''
     = Some \<lparr>rval = RStatus (revokedStatus ''CA'' cert_255), rttl = 24 * Hour, rset_at = 0\<rparr>"
    by (simp add: a)
  from t2 b(2) have "\<forall>cert \<in> set [cert_255]. Serial cert \<in> dom (db (fst (flushBatch env_ok ''CA'' [cert_255] (world_cache, 0))))"
    by blast
  then have d: "''255'' \<in> dom (db (fst (flushBatch env_ok ''CA'' [cert_255] (world_cache, 0))))"
    by (simp add: a)
  from a(1,2) b c d show ?thesis by (intro conjI)
qed

section \<open>Running an ingestion again\<close>

lemma upsert_all_lookup:
  "upsert_all now certs tbl s =
     (case map_of (rev (map (\<lambda>c. (Serial c, c)) certs)) s of
        None \<Rightarrow> tbl s
      | Some c \<Rightarrow> Some \<lparr>row_cert = c, row_updated_at = now\<rparr>)"
proof (induction certs arbitrary: tbl)
  case Nil
  then show ?case by simp
next
  case (Cons c cs)
  show ?case
    by (simp add: Cons.IH map_add_def upsert_def split: option.splits)
qed

lemma upsert_all_again:
  "map_option row_cert (upsert_all t2 certs (upsert_all t1 certs tbl) s)
     = map_option row_cert (upsert_all t1 certs tbl s)"
  by (simp add: upsert_all_lookup split: option.splits)

lemma ProcessSingleCRL_db_blocked:
  "lease_blocks e url w \<Longrightarrow> db (snd (ProcessSingleCRL e url w)) = db w"
  by (simp add: ProcessSingleCRL_blocked)

lemma ProcessSingleCRL_db_download_fails:
  "\<not> lease_blocks e url w \<Longrightarrow> http_download e url = Inl err \<Longrightarrow>
   db (snd (ProcessSingleCRL e url w)) = db w"
  by (simp add: ProcessSingleCRL_entered ingestBody_fails leasePrologue_frame)

lemma ProcessSingleCRL_db_parse_fails:
  "\<not> lease_blocks e url w \<Longrightarrow> http_download e url = Inr data \<Longrightarrow>
   x509_ParseCRL e data = Inl err \<Longrightarrow> db (snd (ProcessSingleCRL e url w)) = db w"
  by (simp add: ProcessSingleCRL_entered ingestBody_fails leasePrologue_frame)

lemma ProcessSingleCRL_db_all_commit:
  assumes "\<not> lease_blocks e url w" "http_download e url = Inr data" "x509_ParseCRL e data = Inr crl"
    and "\<forall>k b. tx_commits (tx_outcome_of e k b) (length b)"
  shows "db (snd (ProcessSingleCRL e url w)) =
     upsert_all (clock w)
       (map (mkRevokedCertificate (extractIssuerName (tbs_Issuer crl))) (tbs_RevokedCertificates crl))
       (db w)"
proof -
  have b: "0 < batchSize" by (simp add: batchSize_def)
  note r = ingestBody_result(2) [OF assms(2,3), of "prologue_world (leasePrologue e url w)"]
  show ?thesis
    by (simp add: ProcessSingleCRL_entered [OF assms(1)] r leasePrologue_frame
        apply_batches_all_commit [OF assms(4)] concat_chunks [OF b])
qed

text \<open>
  C9. With no lease held by anyone else and every transaction committing, a second
  \<open>ProcessSingleCRL\<close> on the same locator, at whatever instant, leaves the same records
  as the first: the same serials, each with the same revocation date, reason code, reason
  text and authority. When the second run passes the prologue and the list is served and
  parsed, it upserts every certificate of the list again, which only moves
  \<open>updated_at\<close>.
\<close>

theorem ingest_twice_same_records:
  assumes "\<not> lease_held w crlURL"
    and "\<forall>k b. tx_commits (tx_outcome_of e k b) (length b)"
  shows "records (snd (ProcessSingleCRL e crlURL
                        ((snd (ProcessSingleCRL e crlURL w))\<lparr>clock := t\<rparr>)))
           = records (snd (ProcessSingleCRL e crlURL w)) \<and>
         (\<not> lease_blocks e crlURL ((snd (ProcessSingleCRL e crlURL w))\<lparr>clock := t\<rparr>) \<and>
          http_download e crlURL = Inr crlData \<and> x509_ParseCRL e crlData = Inr crl \<longrightarrow>
            db (snd (ProcessSingleCRL e crlURL ((snd (ProcessSingleCRL e crlURL w))\<lparr>clock := t\<rparr>)))
              = upsert_all t
                  (map (mkRevokedCertificate (extractIssuerName (tbs_Issuer crl)))
                     (tbs_RevokedCertificates crl))
                  (db (snd (ProcessSingleCRL e crlURL w))))"
proof -
  let ?w1 = "snd (ProcessSingleCRL e crlURL w)"
  let ?w1' = "?w1\<lparr>clock := t\<rparr>"
  let ?w2 = "snd (ProcessSingleCRL e crlURL ?w1')"
  from assms(1) have nb: "\<not> lease_blocks e crlURL w"
    by (simp add: lease_blocks_def)
  have second: "db ?w2 = upsert_all t
                  (map (mkRevokedCertificate (extractIssuerName (tbs_Issuer c)))
                     (tbs_RevokedCertificates c)) (db ?w1)"
    if "\<not> lease_blocks e crlURL ?w1'" "http_download e crlURL = Inr d" "x509_ParseCRL e d = Inr c"
    for d c
    using ProcessSingleCRL_db_all_commit [OF that assms(2)] by simp
  have same: "records ?w2 = records ?w1"
  proof (cases "lease_blocks e crlURL ?w1'")
    case True
    then show ?thesis
      by (simp add: records_def ProcessSingleCRL_db_blocked)
  next
    case False
    show ?thesis
    proof (cases "http_download e crlURL")
      case (Inl err)
      with False show ?thesis
        by (simp add: records_def ProcessSingleCRL_db_download_fails)
    next
      case (Inr d)
      show ?thesis
      proof (cases "x509_ParseCRL e d")
        case (Inl err)
        with False Inr show ?thesis
          by (simp add: records_def ProcessSingleCRL_db_parse_fails)
      next
        case c: (Inr c)
        from ProcessSingleCRL_db_all_commit [OF nb Inr c assms(2)] second [OF False Inr c]
        show ?thesis
          by (simp add: records_def upsert_all_again)
      qed
    qed
  qed
  from same second show ?thesis by blast
qed

theorem ingest_twice_same_records_witness:
  "\<not> lease_held world_cache ''http://ca/a.crl'' \<and>
   (\<forall>k b. tx_commits (tx_outcome_of env_ok k b) (length b)) \<and>
   records (snd (ProcessSingleCRL env_ok ''http://ca/a.crl''
                   ((snd (ProcessSingleCRL env_ok ''http://ca/a.crl'' world_cache))\<lparr>clock := 9 * Hour\<rparr>)))
     = records (snd (ProcessSingleCRL env_ok ''http://ca/a.crl'' world_cache)) \<and>
   records (snd (ProcessSingleCRL env_ok ''http://ca/a.crl'' world_cache)) ''255'' = Some cert_255 \<and>
   db (snd (ProcessSingleCRL env_ok ''http://ca/a.crl'' world_cache)) ''255''
     = Some \<lparr>row_cert = cert_255, row_updated_at = 0\<rparr> \<and>
   db (snd (ProcessSingleCRL env_ok ''http://ca/a.crl''
              ((snd (ProcessSingleCRL env_ok ''http://ca/a.crl'' world_cache))\<lparr>clock := 9 * Hour\<rparr>))) ''255''
     = Some \<lparr>row_cert = cert_255, row_updated_at = 9 * Hour\<rparr>"
proof -
  let ?u = "''http://ca/a.crl''"
  let ?w1 = "snd (ProcessSingleCRL env_ok ?u world_cache)"
  have a: "\<not> lease_held world_cache ?u" "\<forall>k b. tx_commits (tx_outcome_of env_ok k b) (length b)"
    by (simp_all add: lease_held_def world_cache_def env_ok_def)
  have b: "\<not> lease_blocks env_ok ?u (?w1\<lparr>clock := 9 * Hour\<rparr>)"
    "http_download env_ok ?u = Inr []" "x509_ParseCRL env_ok [] = Inr crl_255"
    by (simp_all add: eval_defs)
  have c: "db ?w1 ''255'' = Some \<lparr>row_cert = cert_255, row_updated_at = 0\<rparr>"
    by (simp add: eval_defs)
  then have c': "records ?w1 ''255'' = Some cert_255"
    by (simp add: records_def)
  have m: "map (mkRevokedCertificate (extractIssuerName (tbs_Issuer crl_255)))
             (tbs_RevokedCertificates crl_255) = [cert_255]"
    by (simp add: eval_defs)
  note t = ingest_twice_same_records [OF a, of "9 * Hour" "[]" crl_255]
  from t have s: "records (snd (ProcessSingleCRL env_ok ?u (?w1\<lparr>clock := 9 * Hour\<rparr>))) = records ?w1"
    by (rule conjunct1)
  from t b have "db (snd (ProcessSingleCRL env_ok ?u (?w1\<lparr>clock := 9 * Hour\<rparr>)))
              = upsert_all (9 * Hour) [cert_255] (db ?w1)"
    unfolding m by blast
  then have d: "db (snd (ProcessSingleCRL env_ok ?u (?w1\<lparr>clock := 9 * Hour\<rparr>))) ''255''
     = Some \<lparr>row_cert = cert_255, row_updated_at = 9 * Hour\<rparr>"
    by (simp add: upsert_def cert_255_def)
  from a s c' c d show ?thesis by (intro conjI)
qed

section \<open>Isolation of the sources\<close>

text \<open>
  C7. Whatever the other sources of the registry do (their downloads, parses and
  transactions may fail in any combination, as may every Redis command),
  \<open>ProcessAllCRLs\<close> returns no error once the registry is loaded, and a source that is
  served, parses, whose batches the store accepts and whose lease nobody holds at the
  start has every certificate of its list in the store at the end. The sources are taken
  one after the other in the order of the registry.
\<close>

theorem source_failures_are_isolated:
  assumes "load_file e crlURLsFile = Inr urls" and "crlURL \<in> set urls"
    and "http_download e crlURL = Inr crlData" and "x509_ParseCRL e crlData = Inr crl"
    and "certs = map (mkRevokedCertificate (extractIssuerName (tbs_Issuer crl)))
                   (tbs_RevokedCertificates crl)"
    and "\<forall>k b. b \<noteq> [] \<and> set b \<subseteq> set certs \<longrightarrow> tx_commits (tx_outcome_of e k b) (length b)"
    and "\<not> lease_held w crlURL"
  shows "fst (ProcessAllCRLs e crlURLsFile w) = None \<and>
         (\<forall>cert \<in> set certs. Serial cert \<in> dom (db (snd (ProcessAllCRLs e crlURLsFile w))))"
proof -
  let ?w1 = "foldl (\<lambda>w' url. snd (ProcessSingleCRL e url w')) w urls"
  from assms(1) have r: "fst (ProcessAllCRLs e crlURLsFile w) = None"
    by (simp add: ProcessAllCRLs_def Let_def)
  from assms(1) have d: "db (snd (ProcessAllCRLs e crlURLsFile w)) = db ?w1"
    by (simp add: ProcessAllCRLs_def Let_def)
  from foldl_ProcessSingleCRL_persists [OF assms(3,4,5,6,2,7)]
  have "Serial ` set certs \<subseteq> dom (db ?w1)" .
  with r d show ?thesis by auto
qed

theorem source_failures_are_isolated_witness:
  "load_file env_a_down ''crl_urls.json'' = Inr [''http://ca/a.crl'', ''http://ca/b.crl''] \<and>
   fst (ProcessSingleCRL env_a_down ''http://ca/a.crl'' world_cache) = Some ErrDownload \<and>
   http_download env_a_down ''http://ca/b.crl'' = Inr [] \<and>
   x509_ParseCRL env_a_down [] = Inr crl_255 \<and>
   \<not> lease_held world_cache ''http://ca/b.crl'' \<and>
   fst (ProcessAllCRLs env_a_down ''crl_urls.json'' world_cache) = None \<and>
   ''255'' \<in> dom (db (snd (ProcessAllCRLs env_a_down ''crl_urls.json'' world_cache)))"
proof -
  have a: "load_file env_a_down ''crl_urls.json'' = Inr [''http://ca/a.crl'', ''http://ca/b.crl'']"
    "http_download env_a_down ''http://ca/b.crl'' = Inr []"
    "x509_ParseCRL env_a_down [] = Inr crl_255"
    by (simp_all add: env_a_down_def env_ok_def)
  have i: "''http://ca/b.crl'' \<in> set [''http://ca/a.crl'', ''http://ca/b.crl'']"
    by simp
  have f: "fst (ProcessSingleCRL env_a_down ''http://ca/a.crl'' world_cache) = Some ErrDownload"
    by (simp add: eval_defs env_a_down_def)
  have m: "[cert_255] = map (mkRevokedCertificate (extractIssuerName (tbs_Issuer crl_255)))
             (tbs_RevokedCertificates crl_255)"
    by (simp add: eval_defs)
  have ok: "\<forall>k b. b \<noteq> [] \<and> set b \<subseteq> set [cert_255] \<longrightarrow>
      tx_commits (tx_outcome_of env_a_down k b) (length b)"
    by (simp add: env_a_down_def env_ok_def)
  have l: "\<not> lease_held world_cache ''http://ca/b.crl''"
    by (simp add: lease_held_def world_cache_def)
  note t = source_failures_are_isolated [OF a(1) i a(2,3) m ok l]
  from t have r: "fst (ProcessAllCRLs env_a_down ''crl_urls.json'' world_cache) = None"
    by (rule conjunct1)
  from t have "Serial cert_255 \<in> dom (db (snd (ProcessAllCRLs env_a_down ''crl_urls.json'' world_cache)))"
    by simp
  then have d: "''255'' \<in> dom (db (snd (ProcessAllCRLs env_a_down ''crl_urls.json'' world_cache)))"
    by (simp add: cert_255_def)
  from a(1) f a(2,3) l r d show ?thesis by (intro conjI)
qed

end
